theory Spec2Isabelle
  imports Main "HOL-Library.AList"
begin

section \<open>Match renderer: \<open>renderTokensWithMatches\<close>\<close>

text \<open>
  The renderer builds a DOM tree. Only three kinds of node occur: text nodes, elements
  (a tag name and the list of children) and document fragments. JavaScript strings are
  modelled as \<open>string\<close>; \<open>length\<close> and \<open>substring\<close> count its characters as the source
  counts code units.
\<close>

datatype node =
    Text string
  | Element string "node list"
  | DocumentFragment "node list"

text \<open>A token is \<open>{text, tagName}\<close>; \<open>tagName\<close> may be missing (\<open>None\<close>).\<close>

record token =
  tokenText :: string
  tagName :: "string option"

text \<open>JavaScript truthiness of \<open>token.tagName\<close>: \<open>undefined\<close> and \<open>''\<close> are falsy.\<close>

fun truthy :: "string option \<Rightarrow> bool" where
  "truthy None = False"
| "truthy (Some s) = (s \<noteq> [])"

text \<open>\<open>Node.textContent\<close> read: the texts of all descendant text nodes, in order.\<close>

fun textContent :: "node \<Rightarrow> string" where
  "textContent (Text s) = s"
| "textContent (Element t cs) = concat (map textContent cs)"
| "textContent (DocumentFragment cs) = concat (map textContent cs)"

text \<open>
  \<open>parent.appendChild(n)\<close> on the list of children of the parent: a document fragment
  is emptied into the parent, any other node becomes its last child.
\<close>

fun appendChild :: "node list \<Rightarrow> node \<Rightarrow> node list" where
  "appendChild cs (DocumentFragment ds) = cs @ ds"
| "appendChild cs n = cs @ [n]"

text \<open>
  \<open>node.textContent = s\<close> on a fresh element: the children afterwards. The empty string
  leaves the element without children.
\<close>

definition setTextContent :: "string \<Rightarrow> node list" where
  "setTextContent s = (if s = [] then [] else [Text s])"

text \<open>\<open>s.substring(from, to)\<close> for \<open>from \<le> to \<le> s.length\<close>, the only way it is called.\<close>

definition substring :: "string \<Rightarrow> nat \<Rightarrow> nat \<Rightarrow> string" where
  "substring s from to = take (to - from) (drop from s)"

text \<open>
  \<open>document.createElement(localName)\<close> in the HTML document of the page. It throws the
  \<open>DOMException\<close> \<open>InvalidCharacterError\<close> when \<open>localName\<close> is no valid element name.
  Which names are valid is the rule of the browser (the DOM standard has changed it over
  time); the model takes that check as the parameter \<open>validName\<close>. The element gets the
  name in ASCII lower case and has no children; the result is that name.
\<close>

datatype domException = InvalidCharacterError

definition asciiLowercase :: "string \<Rightarrow> string" where
  "asciiLowercase s =
     map (\<lambda>c. case map_of (zip ''ABCDEFGHIJKLMNOPQRSTUVWXYZ'' ''abcdefghijklmnopqrstuvwxyz'') c of
                 Some l \<Rightarrow> l
               | None \<Rightarrow> c) s"

definition createElement :: "(string \<Rightarrow> bool) \<Rightarrow> string \<Rightarrow> domException + string" where
  "createElement validName localName =
     (if validName localName then Inr (asciiLowercase localName) else Inl InvalidCharacterError)"

text \<open>
  The first branch (\<open>!matches.length\<close>): one node per token, an element holding the text
  when the token has a tag name and a bare text node otherwise. An exception ends the
  loop.
\<close>

fun renderPlain :: "(string \<Rightarrow> bool) \<Rightarrow> token list \<Rightarrow> node list \<Rightarrow> domException + node list" where
  "renderPlain validName [] fragment = Inr fragment"
| "renderPlain validName (t # ts) fragment =
     (if truthy (tagName t)
      then (case createElement validName (the (tagName t)) of
              Inl e \<Rightarrow> Inl e
            | Inr node \<Rightarrow>
                renderPlain validName ts
                  (appendChild fragment (Element node (setTextContent (tokenText t)))))
      else renderPlain validName ts (appendChild fragment (Text (tokenText t))))"

text \<open>
  The inner loop \<open>for (let to = 0; to <= token.text.length; ++to)\<close>, with the loop
  variables \<open>to\<close>, \<open>from\<close>, \<open>lastInsideHighlight\<close> and the children of \<open>result\<close> so far.
  \<open>matches\<close> is an array of numbers, modelled as integers (\<open>to + offset\<close> is a
  non-negative integer, so a number that is no integer is never found);
  \<open>matchesSet.has(to + offset)\<close> is membership.
\<close>

function highlightLoop ::
  "(string \<Rightarrow> bool) \<Rightarrow> int list \<Rightarrow> nat \<Rightarrow> string \<Rightarrow> nat \<Rightarrow> nat \<Rightarrow> bool \<Rightarrow> node list \<Rightarrow>
   domException + node list" where
  "highlightLoop validName matches offset txt to from lastInsideHighlight result =
     (if to \<le> length txt then
        (let insideHighlight = (int (to + offset) \<in> set matches) in
         if insideHighlight = lastInsideHighlight \<and> to < length txt
         then highlightLoop validName matches offset txt (to + 1) from lastInsideHighlight result
         else if from < to
         then (if lastInsideHighlight
               then (case createElement validName ''search-highlight'' of
                       Inl e \<Rightarrow> Inl e
                     | Inr node \<Rightarrow>
                         highlightLoop validName matches offset txt (to + 1) to insideHighlight
                           (appendChild result (Element node (setTextContent (substring txt from to)))))
               else highlightLoop validName matches offset txt (to + 1) to insideHighlight
                      (appendChild result (Text (substring txt from to))))
         else highlightLoop validName matches offset txt (to + 1) from insideHighlight result)
      else Inr result)"
  by pat_completeness auto
termination
  by (relation "measure (\<lambda>(v, matches, offset, txt, to, from, l, result). Suc (length txt) - to)") auto

declare highlightLoop.simps [simp del]

text \<open>The children of \<open>result\<close> after the inner loop has run on one token.\<close>

definition highlightRuns :: "(string \<Rightarrow> bool) \<Rightarrow> int list \<Rightarrow> nat \<Rightarrow> string \<Rightarrow> domException + node list" where
  "highlightRuns validName matches offset txt = highlightLoop validName matches offset txt 0 0 False []"

text \<open>
  \<open>result\<close> as it is created: \<open>token.tagName ? document.createElement(token.tagName)
  : document.createDocumentFragment()\<close>.
\<close>

definition tokenResult :: "(string \<Rightarrow> bool) \<Rightarrow> token \<Rightarrow> domException + node" where
  "tokenResult validName t =
     (if truthy (tagName t)
      then (case createElement validName (the (tagName t)) of
              Inl e \<Rightarrow> Inl e
            | Inr node \<Rightarrow> Inr (Element node []))
      else Inr (DocumentFragment []))"

text \<open>A fresh node with the children the inner loop appended to it.\<close>

fun withChildren :: "node \<Rightarrow> node list \<Rightarrow> node" where
  "withChildren (Element t cs) children = Element t children"
| "withChildren (DocumentFragment cs) children = DocumentFragment children"
| "withChildren (Text s) children = Text s"

text \<open>The body of the outer loop for one token: \<open>result\<close> when it is appended to \<open>fragment\<close>.\<close>

definition renderToken :: "(string \<Rightarrow> bool) \<Rightarrow> int list \<Rightarrow> nat \<Rightarrow> token \<Rightarrow> domException + node" where
  "renderToken validName matches offset t =
     (case tokenResult validName t of
        Inl e \<Rightarrow> Inl e
      | Inr result \<Rightarrow>
          (case highlightRuns validName matches offset (tokenText t) of
             Inl e \<Rightarrow> Inl e
           | Inr children \<Rightarrow> Inr (withChildren result children)))"

text \<open>The outer loop over the tokens, with the running \<open>offset\<close> and the children of \<open>fragment\<close>.\<close>

fun renderHighlighted ::
  "(string \<Rightarrow> bool) \<Rightarrow> int list \<Rightarrow> nat \<Rightarrow> token list \<Rightarrow> node list \<Rightarrow> domException + node list" where
  "renderHighlighted validName matches offset [] fragment = Inr fragment"
| "renderHighlighted validName matches offset (t # ts) fragment =
     (case renderToken validName matches offset t of
        Inl e \<Rightarrow> Inl e
      | Inr result \<Rightarrow>
          renderHighlighted validName matches (offset + length (tokenText t)) ts
            (appendChild fragment result))"

definition renderTokensWithMatches :: "(string \<Rightarrow> bool) \<Rightarrow> int list \<Rightarrow> token list \<Rightarrow> domException + node" where
  "renderTokensWithMatches validName matches tokens =
     (if matches = []
      then (case renderPlain validName tokens [] of
              Inl e \<Rightarrow> Inl e
            | Inr fragment \<Rightarrow> Inr (DocumentFragment fragment))
      else (case renderHighlighted validName matches 0 tokens [] of
              Inl e \<Rightarrow> Inl e
            | Inr fragment \<Rightarrow> Inr (DocumentFragment fragment)))"

section \<open>Observations on rendered nodes\<close>

text \<open>
  The definitions of this section are not code of the program: they name what the
  statements about the renderer observe in its output.
\<close>

fun isHighlight :: "node \<Rightarrow> bool" where
  "isHighlight (Element t cs) = (t = ''search-highlight'')"
| "isHighlight n = False"

fun isRun :: "node \<Rightarrow> bool" where
  "isRun (Text s) = (s \<noteq> [])"
| "isRun (Element t cs) = (t = ''search-highlight'' \<and> (\<exists>s. s \<noteq> [] \<and> cs = [Text s]))"
| "isRun (DocumentFragment cs) = False"

definition runFlags :: "node list \<Rightarrow> bool list" where
  "runFlags ns = concat (map (\<lambda>n. replicate (length (textContent n)) (isHighlight n)) ns)"

fun alternating :: "node list \<Rightarrow> bool" where
  "alternating (a # b # ns) = (isHighlight a \<noteq> isHighlight b \<and> alternating (b # ns))"
| "alternating ns = True"

fun tokenOffsets :: "nat \<Rightarrow> token list \<Rightarrow> nat list" where
  "tokenOffsets offset [] = []"
| "tokenOffsets offset (t # ts) = offset # tokenOffsets (offset + length (tokenText t)) ts"

definition inRangeMatches :: "token list \<Rightarrow> int list \<Rightarrow> int list" where
  "inRangeMatches tokens matches =
     filter (\<lambda>m. 0 \<le> m \<and> m < int (length (concat (map tokenText tokens)))) matches"

text \<open>
  An instance of the name check for the examples: the \<open>Name\<close> production of XML, which
  the DOM standard prescribed when the source was written, on the characters a \<open>string\<close>
  holds.
\<close>

definition nameStartChar :: "char \<Rightarrow> bool" where
  "nameStartChar c =
     (c \<in> set '':_ABCDEFGHIJKLMNOPQRSTUVWXYZabcdefghijklmnopqrstuvwxyz'' \<or>
      (192 \<le> (of_char c :: nat) \<and> (of_char c :: nat) \<le> 214) \<or>
      (216 \<le> (of_char c :: nat) \<and> (of_char c :: nat) \<le> 246) \<or>
      248 \<le> (of_char c :: nat))"

definition nameChar :: "char \<Rightarrow> bool" where
  "nameChar c = (nameStartChar c \<or> c \<in> set ''-.0123456789'' \<or> c = CHR 0xB7)"

fun xmlName :: "string \<Rightarrow> bool" where
  "xmlName [] = False"
| "xmlName (c # cs) = (nameStartChar c \<and> list_all nameChar cs)"

definition pageClick :: "token list" where
  "pageClick = [\<lparr>tokenText = ''page.'', tagName = Some ''search-item-api-method-class''\<rparr>,
                \<lparr>tokenText = ''click(selector)'', tagName = Some ''search-item-api-method-name''\<rparr>]"

text \<open>A token whose tag name is no element name.\<close>

definition badTag :: "token list" where
  "badTag = [\<lparr>tokenText = ''ab'', tagName = Some ''a b''\<rparr>]"

section \<open>The nodes of a run without exception\<close>

text \<open>
  Not code of the program either: the node lists the loops of the renderer build when
  no call of \<open>document.createElement\<close> fails. The proofs reason about these lists and
  about the condition under which the renderer returns them.
\<close>

definition runNode :: "bool \<Rightarrow> string \<Rightarrow> node" where
  "runNode l s = (if l then Element ''search-highlight'' (setTextContent s) else Text s)"

fun plainNodes :: "token list \<Rightarrow> node list \<Rightarrow> node list" where
  "plainNodes [] fragment = fragment"
| "plainNodes (t # ts) fragment =
     (if truthy (tagName t)
      then plainNodes ts (appendChild fragment
             (Element (asciiLowercase (the (tagName t))) (setTextContent (tokenText t))))
      else plainNodes ts (appendChild fragment (Text (tokenText t))))"

function loopNodes :: "int list \<Rightarrow> nat \<Rightarrow> string \<Rightarrow> nat \<Rightarrow> nat \<Rightarrow> bool \<Rightarrow> node list \<Rightarrow> node list" where
  "loopNodes matches offset txt to from lastInsideHighlight result =
     (if to \<le> length txt then
        (let insideHighlight = (int (to + offset) \<in> set matches) in
         if insideHighlight = lastInsideHighlight \<and> to < length txt
         then loopNodes matches offset txt (to + 1) from lastInsideHighlight result
         else if from < to
         then loopNodes matches offset txt (to + 1) to insideHighlight
                (if lastInsideHighlight
                 then appendChild result (Element ''search-highlight'' (setTextContent (substring txt from to)))
                 else appendChild result (Text (substring txt from to)))
         else loopNodes matches offset txt (to + 1) from insideHighlight result)
      else result)"
  by pat_completeness auto
termination
  by (relation "measure (\<lambda>(matches, offset, txt, to, from, l, result). Suc (length txt) - to)") auto

declare loopNodes.simps [simp del]

definition tokenRuns :: "int list \<Rightarrow> nat \<Rightarrow> string \<Rightarrow> node list" where
  "tokenRuns matches offset txt = loopNodes matches offset txt 0 0 False []"

definition tokenNode :: "token \<Rightarrow> node list \<Rightarrow> node" where
  "tokenNode t children =
     (if truthy (tagName t) then Element (asciiLowercase (the (tagName t))) children
      else DocumentFragment children)"

fun highlightedNodes :: "int list \<Rightarrow> nat \<Rightarrow> token list \<Rightarrow> node list \<Rightarrow> node list" where
  "highlightedNodes matches offset [] fragment = fragment"
| "highlightedNodes matches offset (t # ts) fragment =
     highlightedNodes matches (offset + length (tokenText t)) ts
       (appendChild fragment (tokenNode t (tokenRuns matches offset (tokenText t))))"

definition renderedFragment :: "int list \<Rightarrow> token list \<Rightarrow> node" where
  "renderedFragment matches tokens =
     (if matches = [] then DocumentFragment (plainNodes tokens [])
      else DocumentFragment (highlightedNodes matches 0 tokens []))"

text \<open>The calls of \<open>document.createElement\<close> in a run all succeed.\<close>

definition tagOK :: "(string \<Rightarrow> bool) \<Rightarrow> token \<Rightarrow> bool" where
  "tagOK validName t = (if truthy (tagName t) then validName (the (tagName t)) else True)"

definition runsOK :: "(string \<Rightarrow> bool) \<Rightarrow> node list \<Rightarrow> bool" where
  "runsOK validName ns = (validName ''search-highlight'' \<or> list_all (\<lambda>n. \<not> isHighlight n) ns)"

fun tokensOK :: "(string \<Rightarrow> bool) \<Rightarrow> int list \<Rightarrow> nat \<Rightarrow> token list \<Rightarrow> bool" where
  "tokensOK validName matches offset [] = True"
| "tokensOK validName matches offset (t # ts) =
     (tagOK validName t \<and> runsOK validName (tokenRuns matches offset (tokenText t)) \<and>
      tokensOK validName matches (offset + length (tokenText t)) ts)"

section \<open>Version lifespan index: \<open>PPTRProduct._initializeAPILifespan\<close>\<close>

subsection \<open>The four regular expressions\<close>

text \<open>
  \<open>\s\<close> and \<open>\w\<close> of JavaScript regular expressions, on the characters a \<open>string\<close>
  holds (code units up to 255): the white space characters are tab, line feed, vertical
  tab, form feed, carriage return, space and the no-break space.
\<close>

definition isSpace :: "char \<Rightarrow> bool" where
  "isSpace c = (c \<in> set [CHR 0x09, CHR 0x0A, CHR 0x0B, CHR 0x0C, CHR 0x0D, CHR 0x20, CHR 0xA0])"

definition isWord :: "char \<Rightarrow> bool" where
  "isWord c = (c \<in> set ''ABCDEFGHIJKLMNOPQRSTUVWXYZabcdefghijklmnopqrstuvwxyz0123456789_'')"

text \<open>A literal piece of a pattern: the rest of the input behind it, if the input starts with it.\<close>

fun stripPrefix :: "string \<Rightarrow> string \<Rightarrow> string option" where
  "stripPrefix [] s = Some s"
| "stripPrefix (p # ps) [] = None"
| "stripPrefix (p # ps) (c # cs) = (if p = c then stripPrefix ps cs else None)"

text \<open>
  Each pattern is matched at one start position by taking the longest run of every
  repeated class. Backtracking can add no match: in all four patterns a repeated class
  is followed by a character outside the class (or by the end of the input), so a
  shorter run is followed by a character the pattern does not accept. The result is the
  text of the capture group.

  \<open>classRegex = /### class:\s+(\w+)\s*$/\<close>
\<close>

definition classRegexAt :: "string \<Rightarrow> string option" where
  "classRegexAt s =
     (case stripPrefix ''### class:'' s of
        None \<Rightarrow> None
      | Some r \<Rightarrow>
          if takeWhile isSpace r = [] then None
          else let r1 = dropWhile isSpace r; w = takeWhile isWord r1; r2 = dropWhile isWord r1
               in if w = [] then None
                  else if dropWhile isSpace r2 = [] then Some w else None)"

text \<open>\<open>eventRegex = /#### event:\s+'(\w+)'\s*$/\<close>\<close>

definition eventRegexAt :: "string \<Rightarrow> string option" where
  "eventRegexAt s =
     (case stripPrefix ''#### event:'' s of
        None \<Rightarrow> None
      | Some r \<Rightarrow>
          if takeWhile isSpace r = [] then None
          else (case stripPrefix [CHR 0x27] (dropWhile isSpace r) of
                  None \<Rightarrow> None
                | Some r1 \<Rightarrow>
                    let w = takeWhile isWord r1 in
                    if w = [] then None
                    else (case stripPrefix [CHR 0x27] (dropWhile isWord r1) of
                            None \<Rightarrow> None
                          | Some r2 \<Rightarrow> if dropWhile isSpace r2 = [] then Some w else None)))"

text \<open>\<open>methodRegex = /#### \w+\.([\w$]+)\(/\<close>\<close>

definition methodRegexAt :: "string \<Rightarrow> string option" where
  "methodRegexAt s =
     (case stripPrefix ''#### '' s of
        None \<Rightarrow> None
      | Some r \<Rightarrow>
          if takeWhile isWord r = [] then None
          else (case stripPrefix ''.'' (dropWhile isWord r) of
                  None \<Rightarrow> None
                | Some r1 \<Rightarrow>
                    let w = takeWhile (\<lambda>c. isWord c \<or> c = CHR ''$'') r1 in
                    if w = [] then None
                    else (case stripPrefix ''('' (dropWhile (\<lambda>c. isWord c \<or> c = CHR ''$'') r1) of
                            None \<Rightarrow> None
                          | Some r2 \<Rightarrow> Some w)))"

text \<open>\<open>nsRegex = /#### \w+\.(\w+)\s*$/\<close>\<close>

definition nsRegexAt :: "string \<Rightarrow> string option" where
  "nsRegexAt s =
     (case stripPrefix ''#### '' s of
        None \<Rightarrow> None
      | Some r \<Rightarrow>
          if takeWhile isWord r = [] then None
          else (case stripPrefix ''.'' (dropWhile isWord r) of
                  None \<Rightarrow> None
                | Some r1 \<Rightarrow>
                    let w = takeWhile isWord r1 in
                    if w = [] then None
                    else if dropWhile isSpace (dropWhile isWord r1) = [] then Some w else None))"

text \<open>
  None of the patterns is anchored at the start: \<open>regex.test(title)\<close> and
  \<open>title.match(regex)\<close> try the start positions from left to right and stop at the
  first that matches. \<open>None\<close> is \<open>test\<close> returning false; \<open>Some w\<close> is \<open>match(...)[1]\<close>.
\<close>

fun regexSearch :: "(string \<Rightarrow> string option) \<Rightarrow> string \<Rightarrow> string option" where
  "regexSearch at [] = at []"
| "regexSearch at (c # cs) = (case at (c # cs) of Some w \<Rightarrow> Some w | None \<Rightarrow> regexSearch at cs)"

definition classRegex :: "string \<Rightarrow> string option" where
  "classRegex title = regexSearch classRegexAt title"

definition eventRegex :: "string \<Rightarrow> string option" where
  "eventRegex title = regexSearch eventRegexAt title"

definition methodRegex :: "string \<Rightarrow> string option" where
  "methodRegex title = regexSearch methodRegexAt title"

definition nsRegex :: "string \<Rightarrow> string option" where
  "nsRegex title = regexSearch nsRegexAt title"

subsection \<open>Releases and class outlines\<close>

text \<open>
  A JavaScript \<open>Map\<close> with string keys is an association list in insertion order;
  \<open>m.set(k, v)\<close> is \<open>AList.update k v m\<close> (the value is replaced in place when the key
  is there, and the pair is appended otherwise), \<open>m.get(k)\<close> is \<open>map_of m k\<close>,
  \<open>m.has(k)\<close> is \<open>k \<in> set (map fst m)\<close> and \<open>m.keys()\<close> is \<open>map fst m\<close>.
\<close>

type_synonym versionMap = "(string \<times> string) list"

record classOutline =
  className :: string
  since :: string
  until :: string
  eventsSince :: versionMap
  methodsSince :: versionMap
  namespacesSince :: versionMap
  eventsUntil :: versionMap
  methodsUntil :: versionMap
  namespacesUntil :: versionMap

text \<open>
  Of a release the index reads \<open>name\<close> and \<open>apiText\<close>; it adds the property
  \<open>classesLifespan\<close>. The other properties of a release are not touched.
\<close>

record release =
  name :: string
  apiText :: string

record indexedRelease = release +
  classesLifespan :: "(string \<times> classOutline) list"

text \<open>
  The only exception the function can raise: \<open>classOutline.eventsSince\<close> (or
  \<open>methodsSince\<close>, \<open>namespacesSince\<close>) is read while \<open>classOutline\<close> is \<open>null\<close>. The error
  carries the name of the property that was read, which is the most any engine reports.
  \<open>console.assert\<close> in front of it only logs.
\<close>

datatype error = TypeError string

subsection \<open>Build phase\<close>

text \<open>\<open>apiText.split('\n')\<close>\<close>

fun splitLines :: "string \<Rightarrow> string list" where
  "splitLines [] = [[]]"
| "splitLines (c # cs) =
     (if c = CHR 0x0A then [] # splitLines cs
      else (case splitLines cs of [] \<Rightarrow> [[c]] | l # ls \<Rightarrow> (c # l) # ls))"

text \<open>\<open>release.apiText.split('\n').filter(line => line.startsWith('###'))\<close>\<close>

definition titles :: "string \<Rightarrow> string list" where
  "titles text = filter (\<lambda>line. take 3 line = ''###'') (splitLines text)"

text \<open>The object literal a class heading creates.\<close>

definition newOutline :: "string \<Rightarrow> string \<Rightarrow> classOutline" where
  "newOutline cn releaseName =
     \<lparr>className = cn, since = releaseName, until = [],
      eventsSince = [], methodsSince = [], namespacesSince = [],
      eventsUntil = [], methodsUntil = [], namespacesUntil = []\<rparr>"

text \<open>
  \<open>if (classOutline) release.classesLifespan.set(classOutline.name, classOutline)\<close>,
  with \<open>None\<close> for \<open>null\<close>.
\<close>

fun seal :: "classOutline option \<Rightarrow> (string \<times> classOutline) list \<Rightarrow> (string \<times> classOutline) list" where
  "seal None m = m"
| "seal (Some c) m = AList.update (className c) c m"

text \<open>
  The body of \<open>for (const title of titles)\<close>. The state is the variable \<open>classOutline\<close>
  and the map \<open>release.classesLifespan\<close>; an exception leaves with the map as it is at
  that moment.
\<close>

definition scanTitle ::
  "string \<Rightarrow> string \<Rightarrow> classOutline option \<times> (string \<times> classOutline) list \<Rightarrow>
   (error \<times> (string \<times> classOutline) list) + (classOutline option \<times> (string \<times> classOutline) list)" where
  "scanTitle releaseName title st =
     (case st of (classOutline, m) \<Rightarrow>
       (case classRegex title of
          Some cn \<Rightarrow> Inr (Some (newOutline cn releaseName), seal classOutline m)
        | None \<Rightarrow>
       (case eventRegex title of
          Some eventName \<Rightarrow>
            (case classOutline of
               None \<Rightarrow> Inl (TypeError ''eventsSince'', m)
             | Some c \<Rightarrow> Inr (Some (c\<lparr>eventsSince := AList.update eventName releaseName (eventsSince c)\<rparr>), m))
        | None \<Rightarrow>
       (case methodRegex title of
          Some methodName \<Rightarrow>
            (case classOutline of
               None \<Rightarrow> Inl (TypeError ''methodsSince'', m)
             | Some c \<Rightarrow> Inr (Some (c\<lparr>methodsSince := AList.update methodName releaseName (methodsSince c)\<rparr>), m))
        | None \<Rightarrow>
       (case nsRegex title of
          Some nsName \<Rightarrow>
            (case classOutline of
               None \<Rightarrow> Inl (TypeError ''namespacesSince'', m)
             | Some c \<Rightarrow> Inr (Some (c\<lparr>namespacesSince := AList.update nsName releaseName (namespacesSince c)\<rparr>), m))
        | None \<Rightarrow> Inr (classOutline, m))))))"

fun scanTitles ::
  "string \<Rightarrow> string list \<Rightarrow> classOutline option \<times> (string \<times> classOutline) list \<Rightarrow>
   (error \<times> (string \<times> classOutline) list) + (classOutline option \<times> (string \<times> classOutline) list)" where
  "scanTitles releaseName [] st = Inr st"
| "scanTitles releaseName (title # rest) st =
     (case scanTitle releaseName title st of
        Inl e \<Rightarrow> Inl e
      | Inr st' \<Rightarrow> scanTitles releaseName rest st')"

text \<open>
  One round of \<open>for (const release of this._releases)\<close>: the release with its
  \<open>classesLifespan\<close>, or the error together with the release as the exception leaves it.
\<close>

definition buildRelease :: "release \<Rightarrow> (error \<times> indexedRelease) + indexedRelease" where
  "buildRelease r =
     (case scanTitles (name r) (titles (apiText r)) (None, []) of
        Inl (e, m) \<Rightarrow> Inl (e, release.extend r \<lparr>classesLifespan = m\<rparr>)
      | Inr (classOutline, m) \<Rightarrow> Inr (release.extend r \<lparr>classesLifespan = seal classOutline m\<rparr>))"

text \<open>
  The first loop. An exception ends it: the result is then the error and the releases
  that have received a \<open>classesLifespan\<close> so far, the failing one last.
\<close>

fun buildPhase :: "release list \<Rightarrow> (error \<times> indexedRelease list) + indexedRelease list" where
  "buildPhase [] = Inr []"
| "buildPhase (r # rs) =
     (case buildRelease r of
        Inl (e, failed) \<Rightarrow> Inl (e, [failed])
      | Inr b \<Rightarrow>
          (case buildPhase rs of
             Inl (e, done) \<Rightarrow> Inl (e, b # done)
           | Inr bs \<Rightarrow> Inr (b # bs)))"

subsection \<open>Since propagation\<close>

text \<open>
  \<open>for (const [n, since] of previous) if (current.has(n)) current.set(n, since)\<close>
\<close>

definition carrySince :: "versionMap \<Rightarrow> versionMap \<Rightarrow> versionMap" where
  "carrySince previous current =
     fold (\<lambda>(n, since) m. if n \<in> set (map fst m) then AList.update n since m else m) previous current"

text \<open>The body of \<open>for (const [className, classOutline] of release.classesLifespan)\<close>.\<close>

definition sinceClass :: "indexedRelease \<Rightarrow> string \<times> classOutline \<Rightarrow> string \<times> classOutline" where
  "sinceClass previousRelease entry =
     (case entry of (cn, classOutline) \<Rightarrow>
       (case map_of (classesLifespan previousRelease) cn of
          None \<Rightarrow> (cn, classOutline)
        | Some previousClassOutline \<Rightarrow>
            (cn, classOutline
               \<lparr>since := since previousClassOutline,
                eventsSince := carrySince (eventsSince previousClassOutline) (eventsSince classOutline),
                methodsSince := carrySince (methodsSince previousClassOutline) (methodsSince classOutline),
                namespacesSince := carrySince (namespacesSince previousClassOutline) (namespacesSince classOutline)\<rparr>)))"

definition sinceStep :: "indexedRelease \<Rightarrow> indexedRelease \<Rightarrow> indexedRelease" where
  "sinceStep previousRelease release =
     release\<lparr>classesLifespan := map (sinceClass previousRelease) (classesLifespan release)\<rparr>"

text \<open>
  \<open>for (let i = this._releases.length - 2; i >= 0; --i)\<close>. The counter of \<open>sinceLoop\<close>
  is \<open>i + 1\<close>, which runs from \<open>length - 1\<close> down to \<open>1\<close>; with no release or one release
  the loop body does not run.
\<close>

fun sinceLoop :: "nat \<Rightarrow> indexedRelease list \<Rightarrow> indexedRelease list" where
  "sinceLoop 0 rs = rs"
| "sinceLoop (Suc i) rs = sinceLoop i (rs[i := sinceStep (rs ! (i + 1)) (rs ! i)])"

definition sincePhase :: "indexedRelease list \<Rightarrow> indexedRelease list" where
  "sincePhase rs = sinceLoop (length rs - 1) rs"

subsection \<open>Until propagation\<close>

text \<open>\<open>for (const n of until.keys()) until.set(n, nextRelease.name)\<close>\<close>

definition vanishUntil :: "string \<Rightarrow> versionMap \<Rightarrow> versionMap" where
  "vanishUntil nextName untilMap = fold (\<lambda>n m. AList.update n nextName m) (map fst untilMap) untilMap"

text \<open>
  \<open>for (const n of since.keys()) { if (nextUntil.has(n)) until.set(n, nextUntil.get(n));
  else if (!nextSince.has(n)) until.set(n, nextRelease.name); }\<close>
\<close>

definition resolveUntil :: "string \<Rightarrow> versionMap \<Rightarrow> versionMap \<Rightarrow> versionMap \<Rightarrow> versionMap \<Rightarrow> versionMap" where
  "resolveUntil nextName nextUntil nextSince sinceMap untilMap =
     fold (\<lambda>n m. case map_of nextUntil n of
                    Some v \<Rightarrow> AList.update n v m
                  | None \<Rightarrow> if n \<notin> set (map fst nextSince) then AList.update n nextName m else m)
          (map fst sinceMap) untilMap"

definition untilClass :: "indexedRelease \<Rightarrow> string \<times> classOutline \<Rightarrow> string \<times> classOutline" where
  "untilClass nextRelease entry =
     (case entry of (cn, classOutline) \<Rightarrow>
       (case map_of (classesLifespan nextRelease) cn of
          None \<Rightarrow>
            (cn, classOutline
               \<lparr>until := name nextRelease,
                eventsUntil := vanishUntil (name nextRelease) (eventsUntil classOutline),
                methodsUntil := vanishUntil (name nextRelease) (methodsUntil classOutline),
                namespacesUntil := vanishUntil (name nextRelease) (namespacesUntil classOutline)\<rparr>)
        | Some nextReleaseOutline \<Rightarrow>
            (cn, classOutline
               \<lparr>until := until nextReleaseOutline,
                eventsUntil := resolveUntil (name nextRelease) (eventsUntil nextReleaseOutline)
                   (eventsSince nextReleaseOutline) (eventsSince classOutline) (eventsUntil classOutline),
                methodsUntil := resolveUntil (name nextRelease) (methodsUntil nextReleaseOutline)
                   (methodsSince nextReleaseOutline) (methodsSince classOutline) (methodsUntil classOutline),
                namespacesUntil := resolveUntil (name nextRelease) (namespacesUntil nextReleaseOutline)
                   (namespacesSince nextReleaseOutline) (namespacesSince classOutline)
                   (namespacesUntil classOutline)\<rparr>)))"

definition untilStep :: "indexedRelease \<Rightarrow> indexedRelease \<Rightarrow> indexedRelease" where
  "untilStep nextRelease release =
     release\<lparr>classesLifespan := map (untilClass nextRelease) (classesLifespan release)\<rparr>"

text \<open>\<open>for (let i = 0; i < this._releases.length - 1; ++i)\<close>\<close>

function untilLoop :: "nat \<Rightarrow> indexedRelease list \<Rightarrow> indexedRelease list" where
  "untilLoop i rs =
     (if i + 1 < length rs
      then untilLoop (i + 1) (rs[i + 1 := untilStep (rs ! i) (rs ! (i + 1))])
      else rs)"
  by pat_completeness auto
termination
  by (relation "measure (\<lambda>(i, rs). length rs - i)") auto

declare untilLoop.simps [simp del]

definition untilPhase :: "indexedRelease list \<Rightarrow> indexedRelease list" where
  "untilPhase rs = untilLoop 0 rs"

subsection \<open>The whole function\<close>

definition initializeAPILifespan :: "release list \<Rightarrow> (error \<times> indexedRelease list) + indexedRelease list" where
  "initializeAPILifespan releases =
     (case buildPhase releases of
        Inl e \<Rightarrow> Inl e
      | Inr built \<Rightarrow> Inr (untilPhase (sincePhase built)))"

subsection \<open>Observations on the index\<close>

text \<open>
  Not code of the program: the three kinds of symbol, to state a property of the three
  pairs of maps once.
\<close>

datatype symbolKind = Event | Method | Namespace

fun sinceOf :: "symbolKind \<Rightarrow> classOutline \<Rightarrow> versionMap" where
  "sinceOf Event c = eventsSince c"
| "sinceOf Method c = methodsSince c"
| "sinceOf Namespace c = namespacesSince c"

fun untilOf :: "symbolKind \<Rightarrow> classOutline \<Rightarrow> versionMap" where
  "untilOf Event c = eventsUntil c"
| "untilOf Method c = methodsUntil c"
| "untilOf Namespace c = namespacesUntil c"

text \<open>The thrown error of a result, if any.\<close>

fun thrown :: "(error \<times> 'a) + 'b \<Rightarrow> error option" where
  "thrown (Inl (e, s)) = Some e"
| "thrown (Inr x) = None"


text \<open>
  Invariants of the build phase, again not code of the program: every outline a scan
  creates has its own release in \<open>since\<close> and in every \<open>*Since\<close> entry, pairwise different
  keys, and nothing recorded as \<open>until\<close>.
\<close>

definition freshMap :: "string \<Rightarrow> versionMap \<Rightarrow> bool" where
  "freshMap releaseName m = (distinct (map fst m) \<and> (\<forall>p \<in> set m. snd p = releaseName))"

definition freshOutline :: "string \<Rightarrow> classOutline \<Rightarrow> bool" where
  "freshOutline releaseName c =
     (since c = releaseName \<and> until c = [] \<and>
      freshMap releaseName (eventsSince c) \<and> freshMap releaseName (methodsSince c) \<and>
      freshMap releaseName (namespacesSince c) \<and>
      eventsUntil c = [] \<and> methodsUntil c = [] \<and> namespacesUntil c = [])"

definition builtRelease :: "indexedRelease \<Rightarrow> bool" where
  "builtRelease b = (\<forall>p \<in> set (classesLifespan b). freshOutline (name b) (snd p))"

text \<open>The state of the scan is fresh when the open outline and all sealed ones are.\<close>

definition freshState :: "string \<Rightarrow> classOutline option \<times> (string \<times> classOutline) list \<Rightarrow> bool" where
  "freshState rn st = ((\<forall>c. fst st = Some c \<longrightarrow> freshOutline rn c) \<and>
                       (\<forall>p \<in> set (snd st). freshOutline rn (snd p)))"

text \<open>What the since phase keeps: pairwise different keys, and nothing recorded as \<open>until\<close>.\<close>

definition keysDistinct :: "indexedRelease \<Rightarrow> bool" where
  "keysDistinct r = (\<forall>p \<in> set (classesLifespan r). \<forall>k. distinct (map fst (sinceOf k (snd p))))"

definition noUntil :: "indexedRelease \<Rightarrow> bool" where
  "noUntil r = (\<forall>p \<in> set (classesLifespan r). until (snd p) = [] \<and> (\<forall>k. untilOf k (snd p) = []))"

subsection \<open>Example releases\<close>

text \<open>
  The scenario of the specification: class \<open>Page\<close> has the method \<open>close\<close> in \<open>v0.9.0\<close>
  and in \<open>v1.1.0\<close> but not in \<open>v1.0.0\<close>; the releases are stored newest first.
\<close>

definition pageReleases :: "release list" where
  "pageReleases =
     [\<lparr>name = ''v1.1.0'', apiText = ''### class: Page\<newline>#### page.close()''\<rparr>,
      \<lparr>name = ''v1.0.0'', apiText = ''### class: Page''\<rparr>,
      \<lparr>name = ''v0.9.0'', apiText = ''### class: Page\<newline>#### page.close()''\<rparr>]"

definition pageOutline :: "string \<Rightarrow> versionMap \<Rightarrow> versionMap \<Rightarrow> classOutline" where
  "pageOutline s ms mu =
     \<lparr>className = ''Page'', since = s, until = [],
      eventsSince = [], methodsSince = ms, namespacesSince = [],
      eventsUntil = [], methodsUntil = mu, namespacesUntil = []\<rparr>"

definition pageBuilt :: "indexedRelease list" where
  "pageBuilt =
     [\<lparr>name = ''v1.1.0'', apiText = ''### class: Page\<newline>#### page.close()'',
       classesLifespan = [(''Page'', pageOutline ''v1.1.0'' [(''close'', ''v1.1.0'')] [])]\<rparr>,
      \<lparr>name = ''v1.0.0'', apiText = ''### class: Page'',
       classesLifespan = [(''Page'', pageOutline ''v1.0.0'' [] [])]\<rparr>,
      \<lparr>name = ''v0.9.0'', apiText = ''### class: Page\<newline>#### page.close()'',
       classesLifespan = [(''Page'', pageOutline ''v0.9.0'' [(''close'', ''v0.9.0'')] [])]\<rparr>]"

definition pageIndex :: "indexedRelease list" where
  "pageIndex =
     [\<lparr>name = ''v1.1.0'', apiText = ''### class: Page\<newline>#### page.close()'',
       classesLifespan = [(''Page'', pageOutline ''v0.9.0'' [(''close'', ''v1.1.0'')] [])]\<rparr>,
      \<lparr>name = ''v1.0.0'', apiText = ''### class: Page'',
       classesLifespan = [(''Page'', pageOutline ''v0.9.0'' [] [])]\<rparr>,
      \<lparr>name = ''v0.9.0'', apiText = ''### class: Page\<newline>#### page.close()'',
       classesLifespan =
         [(''Page'', pageOutline ''v0.9.0'' [(''close'', ''v0.9.0'')] [(''close'', ''v1.0.0'')])]\<rparr>]"

text \<open>A method in two adjacent releases, and one only in the newer release.\<close>

definition carryReleases :: "release list" where
  "carryReleases =
     [\<lparr>name = ''v2.0.0'', apiText = ''### class: Page\<newline>#### page.close()\<newline>#### page.goto(url)''\<rparr>,
      \<lparr>name = ''v1.0.0'', apiText = ''### class: Page\<newline>#### page.close()''\<rparr>]"

definition carryBuilt :: "indexedRelease list" where
  "carryBuilt =
     [\<lparr>name = ''v2.0.0'', apiText = ''### class: Page\<newline>#### page.close()\<newline>#### page.goto(url)'',
       classesLifespan =
         [(''Page'', pageOutline ''v2.0.0'' [(''close'', ''v2.0.0''), (''goto'', ''v2.0.0'')] [])]\<rparr>,
      \<lparr>name = ''v1.0.0'', apiText = ''### class: Page\<newline>#### page.close()'',
       classesLifespan = [(''Page'', pageOutline ''v1.0.0'' [(''close'', ''v1.0.0'')] [])]\<rparr>]"

text \<open>A class that is gone in the newer release.\<close>

definition workerReleases :: "release list" where
  "workerReleases =
     [\<lparr>name = ''v2.0.0'', apiText = ''### class: Page''\<rparr>,
      \<lparr>name = ''v1.0.0'', apiText = ''### class: Page\<newline>### class: Worker\<newline>#### worker.url()''\<rparr>]"

definition workerOutline :: "string \<Rightarrow> classOutline" where
  "workerOutline u =
     \<lparr>className = ''Worker'', since = ''v1.0.0'', until = u,
      eventsSince = [], methodsSince = [(''url'', ''v1.0.0'')], namespacesSince = [],
      eventsUntil = [], methodsUntil = [], namespacesUntil = []\<rparr>"

definition workerIndex :: "indexedRelease list" where
  "workerIndex =
     [\<lparr>name = ''v2.0.0'', apiText = ''### class: Page'',
       classesLifespan = [(''Page'', pageOutline ''v1.0.0'' [] [])]\<rparr>,
      \<lparr>name = ''v1.0.0'', apiText = ''### class: Page\<newline>### class: Worker\<newline>#### worker.url()'',
       classesLifespan = [(''Page'', pageOutline ''v1.0.0'' [] []), (''Worker'', workerOutline ''v2.0.0'')]\<rparr>]"

text \<open>
  Two indexed releases as the until phase may be handed them: class \<open>Old\<close> of the older
  release has a recorded \<open>eventsUntil\<close> entry and is gone in the newer release; class
  \<open>Page\<close> is in both, its method \<open>close\<close> only in the older one.
\<close>

definition oldOutline :: "string \<Rightarrow> string \<Rightarrow> classOutline" where
  "oldOutline u v =
     \<lparr>className = ''Old'', since = ''v1.0.0'', until = u,
      eventsSince = [(''tick'', ''v1.0.0'')], methodsSince = [], namespacesSince = [],
      eventsUntil = [(''tick'', v)], methodsUntil = [], namespacesUntil = []\<rparr>"

definition untilInput :: "indexedRelease list" where
  "untilInput =
     [\<lparr>name = ''v2.0.0'', apiText = [],
       classesLifespan = [(''Page'', pageOutline ''v1.0.0'' [] [])]\<rparr>,
      \<lparr>name = ''v1.0.0'', apiText = [],
       classesLifespan = [(''Page'', pageOutline ''v1.0.0'' [(''close'', ''v1.0.0'')] []),
                          (''Old'', oldOutline [] ''v1.5.0'')]\<rparr>]"

subsection \<open>Kinds of heading\<close>

text \<open>
  Not code of the program: how the scan classifies a title. It tests \<open>classRegex\<close> first;
  a title is a symbol heading when it is no class heading and one of the other three
  patterns matches.
\<close>

definition isClassHeading :: "string \<Rightarrow> bool" where
  "isClassHeading title = (classRegex title \<noteq> None)"

definition isSymbolHeading :: "string \<Rightarrow> bool" where
  "isSymbolHeading title =
     (classRegex title = None \<and>
      (eventRegex title \<noteq> None \<or> methodRegex title \<noteq> None \<or> nsRegex title \<noteq> None))"

definition nullReads :: "string list" where
  "nullReads = [''eventsSince'', ''methodsSince'', ''namespacesSince'']"

text \<open>A release whose first heading after a section title is a method heading.\<close>

definition brokenReleases :: "release list" where
  "brokenReleases =
     [\<lparr>name = ''v1.1.0'', apiText = ''### class: Page\<newline>#### page.close()''\<rparr>,
      \<lparr>name = ''v1.0.0'', apiText = ''### Overview\<newline>#### page.close()\<newline>### class: Page''\<rparr>,
      \<lparr>name = ''v0.9.0'', apiText = ''### class: Page''\<rparr>]"

definition brokenState :: "indexedRelease list" where
  "brokenState =
     [\<lparr>name = ''v1.1.0'', apiText = ''### class: Page\<newline>#### page.close()'',
       classesLifespan = [(''Page'', pageOutline ''v1.1.0'' [(''close'', ''v1.1.0'')] [])]\<rparr>,
      \<lparr>name = ''v1.0.0'', apiText = ''### Overview\<newline>#### page.close()\<newline>### class: Page'',
       classesLifespan = []\<rparr>]"

section \<open>Search index: \<open>PPTRSearchItem\<close>\<close>

text \<open>
  The entries come from \<open>APIDocumentation\<close>, which is not part of the sources at hand.
  Of an entry the search items read \<open>name\<close>, the text of the first \<open>p\<close> element of
  \<open>element\<close> (if there is one) and \<open>linkURL(PRODUCT_NAME)\<close>; of a class also
  \<open>loweredName\<close>, of a member its \<open>apiClass\<close>, of a method also \<open>args\<close>. These are
  fields of the records below; how \<open>APIDocumentation\<close> computes them is not modelled.
\<close>

record apiEntry =
  entryName :: string
  entryParagraph :: "string option"
  linkURL :: string

record apiClassEntry = apiEntry +
  loweredName :: string

record apiMember = apiEntry +
  apiClass :: apiClassEntry

record apiMethod = apiMember +
  args :: string

text \<open>A class of \<open>this.api.classes\<close> with its members.\<close>

record apiClassMembers = apiClassEntry +
  events :: "apiMember list"
  namespaces :: "apiMember list"
  methods :: "apiMethod list"

text \<open>
  The fields of a \<open>PPTRSearchItem\<close>. The title renderer is the closure
  \<open>matches => renderTokensWithMatches(matches, tokens)\<close>; the item holds its \<open>tokens\<close>.
\<close>

record searchItem =
  itemURL :: string
  itemText :: string
  iconTagName :: string
  titleTokens :: "token list"
  description :: string

text \<open>\<open>desc ? desc.textContent : ''\<close>\<close>

fun descriptionOf :: "string option \<Rightarrow> string" where
  "descriptionOf None = []"
| "descriptionOf (Some d) = d"

definition createForMethod :: "apiMethod \<Rightarrow> searchItem" where
  "createForMethod apiMethod =
     (let className = loweredName (apiClass apiMethod);
          name = entryName apiMethod;
          args = args apiMethod
      in \<lparr>itemURL = linkURL apiMethod,
          itemText = className @ ''.'' @ name @ ''('' @ args @ '')'',
          iconTagName = ''pptr-method-icon'',
          titleTokens =
            [\<lparr>tokenText = className @ ''.'', tagName = Some ''search-item-api-method-class''\<rparr>,
             \<lparr>tokenText = name @ ''('' @ args @ '')'', tagName = Some ''search-item-api-method-name''\<rparr>],
          description = descriptionOf (entryParagraph apiMethod)\<rparr>)"

definition createForEvent :: "apiMember \<Rightarrow> searchItem" where
  "createForEvent apiEvent =
     (let className = loweredName (apiClass apiEvent);
          name = entryName apiEvent
      in \<lparr>itemURL = linkURL apiEvent,
          itemText = className @ ''.on('' @ [CHR 0x27] @ name @ [CHR 0x27] @ '')'',
          iconTagName = ''pptr-event-icon'',
          titleTokens =
            [\<lparr>tokenText = className @ ''.on('', tagName = Some ''search-item-api-method-class''\<rparr>,
             \<lparr>tokenText = [CHR 0x27] @ name @ [CHR 0x27], tagName = Some ''search-item-api-method-name''\<rparr>,
             \<lparr>tokenText = '')'', tagName = Some ''search-item-api-method-class''\<rparr>],
          description = descriptionOf (entryParagraph apiEvent)\<rparr>)"

definition createForNamespace :: "apiMember \<Rightarrow> searchItem" where
  "createForNamespace apiNamespace =
     (let className = loweredName (apiClass apiNamespace);
          name = entryName apiNamespace
      in \<lparr>itemURL = linkURL apiNamespace,
          itemText = className @ ''.'' @ name,
          iconTagName = ''pptr-ns-icon'',
          titleTokens =
            [\<lparr>tokenText = className @ ''.'', tagName = Some ''search-item-api-method-class''\<rparr>,
             \<lparr>tokenText = name, tagName = Some ''search-item-api-method-name''\<rparr>],
          description = descriptionOf (entryParagraph apiNamespace)\<rparr>)"

definition createForClass :: "apiClassMembers \<Rightarrow> searchItem" where
  "createForClass cls =
     (let className = entryName cls
      in \<lparr>itemURL = linkURL cls,
          itemText = className,
          iconTagName = ''pptr-class-icon'',
          titleTokens = [\<lparr>tokenText = className, tagName = Some ''search-item-api-method-name''\<rparr>],
          description = descriptionOf (entryParagraph cls)\<rparr>)"

text \<open>\<open>titleElement(matches)\<close> calls the title renderer.\<close>

definition titleElement :: "(string \<Rightarrow> bool) \<Rightarrow> searchItem \<Rightarrow> int list \<Rightarrow> domException + node" where
  "titleElement validName item matches = renderTokensWithMatches validName matches (titleTokens item)"

text \<open>
  The loop of the \<open>PPTRVersion\<close> constructor over \<open>this.api.classes\<close>, with
  \<open>this._searchItems\<close> so far: the class, its events, its namespaces, its methods.
\<close>

fun pushSearchItems :: "apiClassMembers list \<Rightarrow> searchItem list \<Rightarrow> searchItem list" where
  "pushSearchItems [] items = items"
| "pushSearchItems (c # cs) items =
     pushSearchItems cs
       (items @ [createForClass c] @ map createForEvent (events c)
          @ map createForNamespace (namespaces c) @ map createForMethod (methods c))"

definition searchItems :: "apiClassMembers list \<Rightarrow> searchItem list" where
  "searchItems classes = pushSearchItems classes []"

text \<open>An example class: \<open>Page\<close> with the event \<open>load\<close>, the namespace \<open>mouse\<close> and the method \<open>click\<close>.\<close>

definition pageClass :: apiClassEntry where
  "pageClass = \<lparr>entryName = ''Page'', entryParagraph = None, linkURL = [], loweredName = ''page''\<rparr>"

definition pageMembers :: apiClassMembers where
  "pageMembers =
     \<lparr>entryName = ''Page'', entryParagraph = None, linkURL = [], loweredName = ''page'',
      events = [\<lparr>entryName = ''load'', entryParagraph = None, linkURL = [], apiClass = pageClass\<rparr>],
      namespaces = [\<lparr>entryName = ''mouse'', entryParagraph = None, linkURL = [], apiClass = pageClass\<rparr>],
      methods = [\<lparr>entryName = ''click'', entryParagraph = Some ''Clicks.'', linkURL = [],
                  apiClass = pageClass, args = ''selector''\<rparr>]\<rparr>"

section \<open>Facts about the renderer\<close>

lemma textContent_appendChild:
  "concat (map textContent (appendChild cs n)) = concat (map textContent cs) @ textContent n"
  by (cases n) simp_all

lemma textContent_setTextContent: "concat (map textContent (setTextContent s)) = s"
  by (simp add: setTextContent_def)

lemma plainNodes_text:
  "concat (map textContent (plainNodes ts fragment)) =
     concat (map textContent fragment) @ concat (map tokenText ts)"
  by (induction ts arbitrary: fragment)
     (simp_all add: textContent_appendChild textContent_setTextContent)

lemma substring_step:
  "frm \<le> j \<Longrightarrow> substring txt frm j @ drop j txt = drop frm txt"
proof -
  assume a: "frm \<le> j"
  have "take (j - frm) (drop frm txt) @ drop (j - frm) (drop frm txt) = drop frm txt"
    by (rule append_take_drop_id)
  moreover have "drop (j - frm) (drop frm txt) = drop j txt"
    using a by simp
  ultimately show ?thesis
    by (simp add: substring_def)
qed

lemma loopNodes_stop:
  "length txt < j \<Longrightarrow> loopNodes matches offset txt j frm l result = result"
  by (subst loopNodes.simps) simp

lemma loopNodes_text:
  "frm \<le> j \<Longrightarrow> j \<le> length tx \<Longrightarrow>
   concat (map textContent (loopNodes ms offset tx j frm l result)) =
     concat (map textContent result) @ drop frm tx"
proof (induction ms offset tx j frm l result rule: loopNodes.induct)
  case (1 ms offset tx j frm l result)
  note IH = "1.IH" and le = "1.prems"
  let ?inside = "int (j + offset) \<in> set ms"
  show ?case
  proof (cases "j < length tx")
    case True
    then have nxt: "j + 1 \<le> length tx" by simp
    show ?thesis
    proof (cases "?inside = l")
      case same: True
      have "frm \<le> j + 1" using le by simp
      from IH(1)[OF le(2) refl _ this nxt] same True show ?thesis
        by (subst loopNodes.simps) (simp add: le)
    next
      case diff: False
      show ?thesis
      proof (cases "frm < j")
        case lt: True
        have "j \<le> j + 1" by simp
        from IH(2)[OF le(2) refl _ lt this nxt] diff
        show ?thesis
          using le lt substring_step[of frm j tx, symmetric]
          by (subst loopNodes.simps)
             (simp add: textContent_appendChild textContent_setTextContent)
      next
        case nlt: False
        have "frm \<le> j + 1" using le by simp
        from IH(3)[OF le(2) refl _ nlt this nxt] diff
        show ?thesis
          using le nlt by (subst loopNodes.simps) simp
      qed
    qed
  next
    case False
    then have eq: "j = length tx" using le by simp
    show ?thesis
    proof (cases "frm < j")
      case True
      then show ?thesis
        using eq le
        by (subst loopNodes.simps)
           (simp add: loopNodes_stop textContent_appendChild textContent_setTextContent
              substring_def)
    next
      case False
      then have "frm = length tx" using eq le by simp
      then show ?thesis
        using eq by (subst loopNodes.simps) (simp add: loopNodes_stop)
    qed
  qed
qed

lemma tokenRuns_text: "concat (map textContent (tokenRuns matches offset txt)) = txt"
  by (simp add: tokenRuns_def loopNodes_text)

lemma tokenNode_text: "textContent (tokenNode t cs) = concat (map textContent cs)"
  by (simp add: tokenNode_def)

lemma highlightedNodes_text:
  "concat (map textContent (highlightedNodes matches offset ts fragment)) =
     concat (map textContent fragment) @ concat (map tokenText ts)"
  by (induction ts arbitrary: offset fragment)
     (simp_all add: textContent_appendChild tokenNode_text tokenRuns_text)

lemma renderTokens_text:
  "textContent (renderedFragment ms ts) = concat (map tokenText ts)"
  by (simp add: renderedFragment_def plainNodes_text highlightedNodes_text)

section \<open>Highlight runs\<close>

lemma appendChild_Nil: "appendChild cs n = cs @ appendChild [] n"
  by (cases n) simp_all


lemma loopNodes_continue:
  "j < length tx \<Longrightarrow> (int (j + offset) \<in> set ms) = l \<Longrightarrow>
   loopNodes ms offset tx j frm l result = loopNodes ms offset tx (j + 1) frm l result"
  by (subst loopNodes.simps) simp

lemma loopNodes_flush:
  "j \<le> length tx \<Longrightarrow> \<not> ((int (j + offset) \<in> set ms) = l \<and> j < length tx) \<Longrightarrow> frm < j \<Longrightarrow>
   loopNodes ms offset tx j frm l result =
     loopNodes ms offset tx (j + 1) j (int (j + offset) \<in> set ms)
       (result @ [runNode l (substring tx frm j)])"
  by (subst loopNodes.simps) (auto simp add: runNode_def)

lemma loopNodes_skip:
  "j \<le> length tx \<Longrightarrow> \<not> ((int (j + offset) \<in> set ms) = l \<and> j < length tx) \<Longrightarrow> \<not> frm < j \<Longrightarrow>
   loopNodes ms offset tx j frm l result =
     loopNodes ms offset tx (j + 1) frm (int (j + offset) \<in> set ms) result"
  by (subst loopNodes.simps) auto

lemma loopNodes_acc:
  "loopNodes ms offset tx j frm l result = result @ loopNodes ms offset tx j frm l []"
proof (induction "Suc (length tx) - j" arbitrary: j frm l result)
  case 0
  then have "length tx < j" by simp
  then show ?case by (simp add: loopNodes_stop)
next
  case (Suc n)
  then have le: "j \<le> length tx" and n: "n = Suc (length tx) - (j + 1)" by simp_all
  let ?inside = "int (j + offset) \<in> set ms"
  show ?case
  proof (cases "?inside = l \<and> j < length tx")
    case True
    then show ?thesis
      using Suc.hyps(1)[OF n, of frm l result] by (simp add: loopNodes_continue)
  next
    case nc: False
    show ?thesis
    proof (cases "frm < j")
      case lt: True
      show ?thesis
        using Suc.hyps(1)[OF n, of j ?inside "result @ [runNode l (substring tx frm j)]"]
              Suc.hyps(1)[OF n, of j ?inside "[runNode l (substring tx frm j)]"]
        by (simp add: loopNodes_flush[OF le nc lt])
    next
      case nlt: False
      show ?thesis
        using Suc.hyps(1)[OF n, of frm ?inside result]
        by (simp add: loopNodes_skip[OF le nc nlt])
    qed
  qed
qed

lemma runFlags_Nil: "runFlags [] = []"
  by (simp add: runFlags_def)

lemma runFlags_Cons: "runFlags (n # ns) = replicate (length (textContent n)) (isHighlight n) @ runFlags ns"
  by (simp add: runFlags_def)

lemma runNode_props:
  "s \<noteq> [] \<Longrightarrow> isRun (runNode l s) \<and> isHighlight (runNode l s) = l \<and> textContent (runNode l s) = s"
  by (simp add: runNode_def setTextContent_def)

lemma alternating_Cons:
  "alternating (a # ns) = ((ns = [] \<or> isHighlight a \<noteq> isHighlight (hd ns)) \<and> alternating ns)"
  by (cases ns) auto

lemma replicate_eq_map_const:
  "\<forall>p. frm \<le> p \<and> p < j \<longrightarrow> f p = l \<Longrightarrow> replicate (j - frm) l = map f [frm..<j]"
  by (rule nth_equalityI) simp_all

lemma loopNodes_runs:
  "frm \<le> j \<Longrightarrow> j \<le> length tx \<Longrightarrow> (\<forall>p. frm \<le> p \<and> p < j \<longrightarrow> (int (p + offset) \<in> set ms) = l) \<Longrightarrow>
   runFlags (loopNodes ms offset tx j frm l []) = map (\<lambda>p. int (p + offset) \<in> set ms) [frm..<length tx]
   \<and> list_all isRun (loopNodes ms offset tx j frm l [])
   \<and> alternating (loopNodes ms offset tx j frm l [])
   \<and> (frm < j \<longrightarrow> loopNodes ms offset tx j frm l [] \<noteq> [] \<and> isHighlight (hd (loopNodes ms offset tx j frm l [])) = l)"
proof (induction "Suc (length tx) - j" arbitrary: j frm l)
  case 0
  then show ?case by simp
next
  case (Suc n)
  note le = \<open>j \<le> length tx\<close> and fj = \<open>frm \<le> j\<close>
    and pend = \<open>\<forall>p. frm \<le> p \<and> p < j \<longrightarrow> (int (p + offset) \<in> set ms) = l\<close>
  from Suc.hyps(2) le have n: "n = Suc (length tx) - (j + 1)" by simp
  let ?f = "\<lambda>p. int (p + offset) \<in> set ms"
  let ?inside = "?f j"
  show ?case
  proof (cases "j < length tx")
    case jlt: True
    then have nxt: "j + 1 \<le> length tx" by simp
    show ?thesis
    proof (cases "?inside = l")
      case same: True
      have p': "\<forall>p. frm \<le> p \<and> p < j + 1 \<longrightarrow> ?f p = l"
        using pend same by (auto simp: less_Suc_eq)
      have f': "frm \<le> j + 1" using fj by simp
      from Suc.hyps(1)[OF n f' nxt p'] show ?thesis
        using jlt same fj by (simp add: loopNodes_continue)
    next
      case diff: False
      then have nc: "\<not> (?inside = l \<and> j < length tx)" by simp
      show ?thesis
      proof (cases "frm < j")
        case lt: True
        let ?R = "loopNodes ms offset tx (j + 1) j ?inside []"
        have p': "\<forall>p. j \<le> p \<and> p < j + 1 \<longrightarrow> ?f p = ?inside"
          by (auto simp: less_Suc_eq le_less)
        have IH: "runFlags ?R = map ?f [j..<length tx]" "list_all isRun ?R" "alternating ?R"
            "?R \<noteq> []" "isHighlight (hd ?R) = ?inside"
          using Suc.hyps(1)[OF n _ nxt p'] by simp_all
        have eq: "loopNodes ms offset tx j frm l [] = runNode l (substring tx frm j) # ?R"
          using loopNodes_flush[OF le nc lt, of "[]"]
                loopNodes_acc[of ms offset tx "j + 1" j ?inside "[runNode l (substring tx frm j)]"]
          by simp
        have ne: "substring tx frm j \<noteq> []" and len: "length (substring tx frm j) = j - frm"
          using lt le by (simp_all add: substring_def)
        have split: "[frm..<length tx] = [frm..<j] @ [j..<length tx]"
          using fj le by (metis le_Suc_ex upt_add_eq_append)
        show ?thesis
          unfolding eq using IH diff runNode_props[OF ne, of l] lt
          by (simp add: runFlags_Cons alternating_Cons len split replicate_eq_map_const[OF pend])
      next
        case nlt: False
        then have e: "frm = j" using fj by simp
        have p': "\<forall>p. frm \<le> p \<and> p < j + 1 \<longrightarrow> ?f p = ?inside"
          using e by (auto simp: less_Suc_eq)
        have f': "frm \<le> j + 1" using fj by simp
        from Suc.hyps(1)[OF n f' nxt p'] show ?thesis
          using nlt by (simp add: loopNodes_skip[OF le nc nlt])
      qed
    qed
  next
    case False
    then have e: "j = length tx" using le by simp
    then have nc: "\<not> (?inside = l \<and> j < length tx)" by simp
    show ?thesis
    proof (cases "frm < j")
      case lt: True
      have ne: "substring tx frm j \<noteq> []" and len: "length (substring tx frm j) = j - frm"
        using lt le by (simp_all add: substring_def)
      have eq: "loopNodes ms offset tx j frm l [] = [runNode l (substring tx frm j)]"
        using loopNodes_flush[OF le nc lt, of "[]"] e by (simp add: loopNodes_stop)
      have fl: "replicate (length (substring tx frm j)) l = map ?f [frm..<length tx]"
        unfolding len using replicate_eq_map_const[OF pend] e by blast
      show ?thesis
        unfolding eq using runNode_props[OF ne, of l] lt fl
        by (simp add: runFlags_Cons runFlags_Nil)
    next
      case nlt: False
      then have e': "frm = length tx" using fj e by simp
      have eq: "loopNodes ms offset tx j frm l [] = []"
        using loopNodes_skip[OF le nc nlt, of "[]"] e by (simp add: loopNodes_stop)
      show ?thesis
        unfolding eq using e e' by (simp add: runFlags_Nil)
    qed
  qed
qed


lemma tokenRuns_props:
  "runFlags (tokenRuns ms offset tx) = map (\<lambda>p. int (p + offset) \<in> set ms) [0..<length tx]
   \<and> list_all isRun (tokenRuns ms offset tx) \<and> alternating (tokenRuns ms offset tx)"
  using loopNodes_runs[of 0 0 tx offset ms False] by (simp add: tokenRuns_def)

lemma highlightedNodes_blocks:
  "highlightedNodes ms offset ts fragment =
     fragment @ concat (map (\<lambda>(off, t). appendChild [] (tokenNode t (tokenRuns ms off (tokenText t))))
                         (zip (tokenOffsets offset ts) ts))"
proof (induction ts arbitrary: offset fragment)
  case Nil
  then show ?case by simp
next
  case (Cons t ts)
  show ?case
    by (simp add: Cons.IH appendChild_Nil[of fragment])
qed

lemma isRun_text_nonempty: "isRun n \<Longrightarrow> textContent n \<noteq> []"
  by (cases n) auto

lemma runFlags_hd:
  "list_all isRun ns \<Longrightarrow> ns \<noteq> [] \<Longrightarrow> hd (runFlags ns) = isHighlight (hd ns)"
  by (cases ns) (auto simp add: runFlags_Cons dest: isRun_text_nonempty)

lemma runFlags_append: "runFlags (xs @ ys) = runFlags xs @ runFlags ys"
  by (simp add: runFlags_def)

lemma runFlags_last:
  "list_all isRun ns \<Longrightarrow> ns \<noteq> [] \<Longrightarrow> last (runFlags ns) = isHighlight (last ns)"
proof (induction ns rule: rev_induct)
  case Nil
  then show ?case by simp
next
  case (snoc n ns)
  then have "textContent n \<noteq> []" by (simp add: isRun_text_nonempty)
  then show ?case
    by (simp add: runFlags_append runFlags_Cons runFlags_Nil)
qed

lemma runFlags_nonempty: "runFlags ns = map f [0..<k] \<Longrightarrow> 0 < k \<Longrightarrow> ns \<noteq> []"
  by (auto simp add: runFlags_Nil)

lemma tokenRuns_boundary:
  assumes "s1 \<noteq> []" "s2 \<noteq> []"
    and "int (offset + length s1 - 1) \<in> set ms" and "int (offset + length s1) \<in> set ms"
  shows "isHighlight (last (tokenRuns ms offset s1))
       \<and> isHighlight (hd (tokenRuns ms (offset + length s1) s2))"
proof -
  let ?f1 = "\<lambda>p. int (p + offset) \<in> set ms"
  let ?f2 = "\<lambda>p. int (p + (offset + length s1)) \<in> set ms"
  have 1: "runFlags (tokenRuns ms offset s1) = map ?f1 [0..<length s1]"
    and r1: "list_all isRun (tokenRuns ms offset s1)"
    using tokenRuns_props[of ms offset s1] by simp_all
  have 2: "runFlags (tokenRuns ms (offset + length s1) s2) = map ?f2 [0..<length s2]"
    and r2: "list_all isRun (tokenRuns ms (offset + length s1) s2)"
    using tokenRuns_props[of ms "offset + length s1" s2] by simp_all
  have l1: "0 < length s1" and l2: "0 < length s2" using assms by simp_all
  have n1: "tokenRuns ms offset s1 \<noteq> []" using runFlags_nonempty[OF 1 l1] .
  have n2: "tokenRuns ms (offset + length s1) s2 \<noteq> []" using runFlags_nonempty[OF 2 l2] .
  have e: "length s1 - 1 + offset = offset + length s1 - 1" using l1 by arith
  have f: "?f1 (length s1 - 1)" unfolding e using assms(3) .
  have "last (map ?f1 [0..<length s1]) = ?f1 (length s1 - 1)"
    using l1 by (simp add: last_map last_upt)
  then have a: "isHighlight (last (tokenRuns ms offset s1))"
    using runFlags_last[OF r1 n1] 1 f by simp
  have "hd (map ?f2 [0..<length s2]) = ?f2 0"
    using l2 by (simp add: hd_map upt_conv_Cons)
  then have b: "isHighlight (hd (tokenRuns ms (offset + length s1) s2))"
    using runFlags_hd[OF r2 n2] 2 assms(4) by simp
  from a b show ?thesis by simp
qed

lemma tokenRuns_maximal:
  "(matches \<noteq> [] \<longrightarrow>
      renderedFragment matches tokens =
        DocumentFragment (concat (map (\<lambda>(off, t). appendChild [] (tokenNode t (tokenRuns matches off (tokenText t))))
                                      (zip (tokenOffsets 0 tokens) tokens))))
   \<and> concat (map textContent (tokenRuns matches offset s)) = s
   \<and> runFlags (tokenRuns matches offset s) = map (\<lambda>p. int (p + offset) \<in> set matches) [0..<length s]
   \<and> list_all isRun (tokenRuns matches offset s)
   \<and> alternating (tokenRuns matches offset s)
   \<and> (s \<noteq> [] \<and> s2 \<noteq> [] \<and> int (offset + length s - 1) \<in> set matches \<and> int (offset + length s) \<in> set matches \<longrightarrow>
        isHighlight (last (tokenRuns matches offset s)) \<and>
        isHighlight (hd (tokenRuns matches (offset + length s) s2)))"
  using tokenRuns_props[of matches offset s] tokenRuns_boundary[of s s2 offset matches]
  by (simp add: renderedFragment_def highlightedNodes_blocks tokenRuns_text)

section \<open>Offsets outside the text\<close>

lemma loopNodes_cong:
  "(\<forall>p. p < length tx \<longrightarrow> (int (p + offset) \<in> set ms) = (int (p + offset) \<in> set ms')) \<Longrightarrow>
   loopNodes ms offset tx j frm l result = loopNodes ms' offset tx j frm l result"
proof (induction "Suc (length tx) - j" arbitrary: j frm l result)
  case 0
  then have "length tx < j" by simp
  then show ?case by (simp add: loopNodes_stop)
next
  case (Suc n)
  then have le: "j \<le> length tx" and n: "n = Suc (length tx) - (j + 1)" by simp_all
  note same = Suc.prems
  note IH = Suc.hyps(1)[OF n same]
  show ?case
  proof (cases "j < length tx")
    case True
    then have m: "(int (j + offset) \<in> set ms) = (int (j + offset) \<in> set ms')"
      using same by simp
    show ?thesis
      unfolding loopNodes.simps[of ms offset tx j] loopNodes.simps[of ms' offset tx j]
      by (simp only: m IH Let_def)
  next
    case False
    then have e: "length tx < j + 1" using le by simp
    show ?thesis
      unfolding loopNodes.simps[of ms offset tx j] loopNodes.simps[of ms' offset tx j]
      using False le by (simp add: Let_def loopNodes_stop)
  qed
qed

lemma loopNodes_noMatch:
  "j \<le> length tx \<Longrightarrow> loopNodes [] offset tx j 0 False [] = setTextContent tx"
proof (induction "Suc (length tx) - j" arbitrary: j)
  case 0
  then show ?case by simp
next
  case (Suc n)
  then have le: "j \<le> length tx" and n: "n = Suc (length tx) - (j + 1)" by simp_all
  show ?case
  proof (cases "j < length tx")
    case True
    then show ?thesis
      using Suc.hyps(1)[OF n] by (simp add: loopNodes_continue)
  next
    case False
    then have e: "j = length tx" using le by simp
    show ?thesis
      using e
      by (subst loopNodes.simps)
         (simp add: loopNodes_stop setTextContent_def substring_def)
  qed
qed

lemma tokenRuns_noMatch:
  assumes "\<forall>p. p < length tx \<longrightarrow> int (p + offset) \<notin> set ms"
  shows "tokenRuns ms offset tx = setTextContent tx"
proof -
  have "loopNodes ms offset tx 0 0 False [] = loopNodes [] offset tx 0 0 False []"
    by (rule loopNodes_cong) (use assms in simp)
  then show ?thesis
    by (simp add: tokenRuns_def loopNodes_noMatch)
qed

lemma highlightedNodes_cong:
  "(\<forall>p. p < offset + length (concat (map tokenText ts)) \<longrightarrow> (int p \<in> set ms) = (int p \<in> set ms')) \<Longrightarrow>
   highlightedNodes ms offset ts fragment = highlightedNodes ms' offset ts fragment"
proof (induction ts arbitrary: offset fragment)
  case Nil
  then show ?case by simp
next
  case (Cons t ts)
  have "\<forall>p. p < length (tokenText t) \<longrightarrow> (int (p + offset) \<in> set ms) = (int (p + offset) \<in> set ms')"
  proof (intro allI impI)
    fix p assume "p < length (tokenText t)"
    then have "p + offset < offset + length (concat (map tokenText (t # ts)))" by simp
    then show "(int (p + offset) \<in> set ms) = (int (p + offset) \<in> set ms')"
      using Cons.prems by blast
  qed
  then have a: "tokenRuns ms offset (tokenText t) = tokenRuns ms' offset (tokenText t)"
    unfolding tokenRuns_def by (rule loopNodes_cong)
  have b: "\<forall>p. p < offset + length (tokenText t) + length (concat (map tokenText ts)) \<longrightarrow>
              (int p \<in> set ms) = (int p \<in> set ms')"
    using Cons.prems by (simp add: add.assoc)
  show ?case
    using Cons.IH[OF b] a by simp
qed

lemma plainNodes_acc: "plainNodes ts fragment = fragment @ plainNodes ts []"
proof (induction ts arbitrary: fragment)
  case Nil
  then show ?case by simp
next
  case (Cons t ts)
  show ?case
    using Cons.IH[of "fragment @ [Element (asciiLowercase (the (tagName t))) (setTextContent (tokenText t))]"]
          Cons.IH[of "[Element (asciiLowercase (the (tagName t))) (setTextContent (tokenText t))]"]
          Cons.IH[of "fragment @ [Text (tokenText t)]"]
          Cons.IH[of "[Text (tokenText t)]"]
    by simp
qed

lemma highlightedNodes_noMatch:
  "(\<forall>p. p < offset + length (concat (map tokenText ts)) \<longrightarrow> int p \<notin> set ms) \<Longrightarrow>
   highlightedNodes ms offset ts [] = filter (\<lambda>n. n \<noteq> Text []) (plainNodes ts [])"
proof (induction ts arbitrary: offset)
  case Nil
  then show ?case by simp
next
  case (Cons t ts)
  have "\<forall>p. p < length (tokenText t) \<longrightarrow> int (p + offset) \<notin> set ms"
  proof (intro allI impI)
    fix p assume "p < length (tokenText t)"
    then have "p + offset < offset + length (concat (map tokenText (t # ts)))" by simp
    then show "int (p + offset) \<notin> set ms"
      using Cons.prems by blast
  qed
  then have a: "tokenRuns ms offset (tokenText t) = setTextContent (tokenText t)"
    by (rule tokenRuns_noMatch)
  have b: "\<forall>p. p < offset + length (tokenText t) + length (concat (map tokenText ts)) \<longrightarrow> int p \<notin> set ms"
    using Cons.prems by (simp add: add.assoc)
  have c: "highlightedNodes ms (offset + length (tokenText t)) ts [] =
           filter (\<lambda>n. n \<noteq> Text []) (plainNodes ts [])"
    using Cons.IH[OF b] .
  show ?case
  proof (cases "truthy (tagName t)")
    case True
    then show ?thesis
      using highlightedNodes_blocks[of ms "offset + length (tokenText t)" ts
               "[Element (asciiLowercase (the (tagName t))) (setTextContent (tokenText t))]"]
            highlightedNodes_blocks[of ms "offset + length (tokenText t)" ts "[]"]
            plainNodes_acc[of ts "[Element (asciiLowercase (the (tagName t))) (setTextContent (tokenText t))]"]
            c a
      by (simp add: tokenNode_def)
  next
    case False
    then show ?thesis
      using highlightedNodes_blocks[of ms "offset + length (tokenText t)" ts
               "setTextContent (tokenText t)"]
            highlightedNodes_blocks[of ms "offset + length (tokenText t)" ts "[]"]
            plainNodes_acc[of ts "[Text (tokenText t)]"]
            c a
      by (simp add: tokenNode_def setTextContent_def)
  qed
qed

lemma plainNodes_no_empty_text:
  "\<forall>t \<in> set ts. truthy (tagName t) \<or> tokenText t \<noteq> [] \<Longrightarrow>
   filter (\<lambda>n. n \<noteq> Text []) (plainNodes ts []) = plainNodes ts []"
proof (induction ts)
  case Nil
  then show ?case by simp
next
  case (Cons t ts)
  then show ?case
    using plainNodes_acc[of ts "[Element (asciiLowercase (the (tagName t))) (setTextContent (tokenText t))]"]
          plainNodes_acc[of ts "[Text (tokenText t)]"]
    by auto
qed

lemma inRange_mem:
  "p < length (concat (map tokenText tokens)) \<Longrightarrow>
   (int p \<in> set (inRangeMatches tokens ms)) = (int p \<in> set ms)"
  by (auto simp add: inRangeMatches_def)

lemma renderedFragment_inRange:
  assumes "matches = [] \<or> inRangeMatches tokens matches \<noteq> [] \<or>
           (\<forall>t \<in> set tokens. truthy (tagName t) \<or> tokenText t \<noteq> [])"
  shows "renderedFragment matches tokens = renderedFragment (inRangeMatches tokens matches) tokens"
proof -
  let ?ms' = "inRangeMatches tokens matches"
  have same: "highlightedNodes matches 0 tokens [] = highlightedNodes ?ms' 0 tokens []"
    by (rule highlightedNodes_cong) (simp add: inRange_mem)
  have none: "highlightedNodes matches 0 tokens [] = filter (\<lambda>n. n \<noteq> Text []) (plainNodes tokens [])"
    if "?ms' = []"
  proof (rule highlightedNodes_noMatch, intro allI impI)
    fix p assume "p < 0 + length (concat (map tokenText tokens))"
    then have "(int p \<in> set ?ms') = (int p \<in> set matches)"
      by (simp add: inRange_mem)
    with that show "int p \<notin> set matches" by simp
  qed
  have e: "matches = [] \<Longrightarrow> ?ms' = []"
    by (simp add: inRangeMatches_def)
  show ?thesis
  proof (cases "matches = []")
    case True
    then show ?thesis using e by simp
  next
    case ne: False
    show ?thesis
    proof (cases "?ms' = []")
      case False
      then show ?thesis using ne same by (simp add: renderedFragment_def)
    next
      case True
      then have "\<forall>t \<in> set tokens. truthy (tagName t) \<or> tokenText t \<noteq> []"
        using assms ne by blast
      from plainNodes_no_empty_text[OF this] none[OF True] ne True
      show ?thesis by (simp add: renderedFragment_def)
    qed
  qed
qed

section \<open>The renderer and its node lists\<close>

lemma asciiLowercase_highlight: "asciiLowercase ''search-highlight'' = ''search-highlight''"
  by (simp add: asciiLowercase_def)

lemma createElement_highlight:
  "createElement v ''search-highlight'' =
     (if v ''search-highlight'' then Inr ''search-highlight'' else Inl InvalidCharacterError)"
  by (simp add: createElement_def asciiLowercase_highlight)

lemma loopNodes_stop_Nil: "length tx < j \<Longrightarrow> loopNodes ms offset tx j frm l [] = []"
  by (simp add: loopNodes_stop)

lemma isHighlight_runNode: "isHighlight (runNode l s) = l"
  by (simp add: runNode_def)

lemma runsOK_Cons:
  "runsOK v (runNode l s # ns) = ((l \<longrightarrow> v ''search-highlight'') \<and> runsOK v ns)"
  by (auto simp add: runsOK_def isHighlight_runNode)

lemma highlightLoop_nodes:
  "highlightLoop v ms offset tx j frm l result =
     (if runsOK v (loopNodes ms offset tx j frm l [])
      then Inr (result @ loopNodes ms offset tx j frm l [])
      else Inl InvalidCharacterError)"
proof (induction "Suc (length tx) - j" arbitrary: j frm l result)
  case 0
  then have s: "length tx < j" by simp
  have "highlightLoop v ms offset tx j frm l result = Inr result"
    using s by (subst highlightLoop.simps) simp
  then show ?case using s by (simp add: loopNodes_stop runsOK_def)
next
  case (Suc n)
  then have le: "j \<le> length tx" and n: "n = Suc (length tx) - (j + 1)" by simp_all
  let ?inside = "int (j + offset) \<in> set ms"
  note IH = Suc.hyps(1)[OF n]
  show ?case
  proof (cases "?inside = l \<and> j < length tx")
    case True
    have "highlightLoop v ms offset tx j frm l result =
          highlightLoop v ms offset tx (j + 1) frm l result"
      using True le by (subst highlightLoop.simps) simp
    moreover have "loopNodes ms offset tx j frm l [] = loopNodes ms offset tx (j + 1) frm l []"
      using True by (simp add: loopNodes_continue)
    ultimately show ?thesis using IH[of frm l result] by simp
  next
    case nc: False
    show ?thesis
    proof (cases "frm < j")
      case lt: True
      let ?sub = "substring tx frm j"
      let ?rest = "loopNodes ms offset tx (j + 1) j ?inside []"
      have pure: "loopNodes ms offset tx j frm l [] = runNode l ?sub # ?rest"
        using loopNodes_flush[OF le nc lt, of "[]"]
              loopNodes_acc[of ms offset tx "j + 1" j ?inside "[runNode l ?sub]"]
        by simp
      show ?thesis
      proof (cases l)
        case True
        show ?thesis
        proof (cases "v ''search-highlight''")
          case ok: True
          have "highlightLoop v ms offset tx j frm l result =
                highlightLoop v ms offset tx (j + 1) j ?inside (result @ [runNode l ?sub])"
            using True ok nc lt le
            by (subst highlightLoop.simps) (auto simp add: createElement_highlight runNode_def)
          then show ?thesis
            using IH[of j ?inside "result @ [runNode l ?sub]"] ok
            unfolding pure runsOK_Cons by (simp add: runsOK_def)
        next
          case bad: False
          have "highlightLoop v ms offset tx j frm l result = Inl InvalidCharacterError"
            using True bad nc lt le
            by (subst highlightLoop.simps) (auto simp add: createElement_highlight)
          then show ?thesis
            unfolding pure runsOK_Cons using True bad by simp
        qed
      next
        case False
        have "highlightLoop v ms offset tx j frm l result =
              highlightLoop v ms offset tx (j + 1) j ?inside (result @ [runNode l ?sub])"
          using False nc lt le
          by (subst highlightLoop.simps) (auto simp add: runNode_def)
        then show ?thesis
          using IH[of j ?inside "result @ [runNode l ?sub]"] False
          unfolding pure runsOK_Cons by simp
      qed
    next
      case nlt: False
      have "highlightLoop v ms offset tx j frm l result =
            highlightLoop v ms offset tx (j + 1) frm ?inside result"
        using nc nlt le by (subst highlightLoop.simps) auto
      moreover have "loopNodes ms offset tx j frm l [] = loopNodes ms offset tx (j + 1) frm ?inside []"
        using loopNodes_skip[OF le nc nlt] by simp
      ultimately show ?thesis using IH[of frm ?inside result] by simp
    qed
  qed
qed

lemma highlightRuns_nodes:
  "highlightRuns v ms offset tx =
     (if runsOK v (tokenRuns ms offset tx) then Inr (tokenRuns ms offset tx)
      else Inl InvalidCharacterError)"
  by (simp add: highlightRuns_def tokenRuns_def highlightLoop_nodes)

lemma tokenResult_nodes:
  "tokenResult v t = (if tagOK v t then Inr (tokenNode t []) else Inl InvalidCharacterError)"
  by (simp add: tokenResult_def tagOK_def tokenNode_def createElement_def)

lemma withChildren_tokenNode: "withChildren (tokenNode t cs) children = tokenNode t children"
  by (simp add: tokenNode_def)

lemma renderToken_nodes:
  "renderToken v ms offset t =
     (if tagOK v t \<and> runsOK v (tokenRuns ms offset (tokenText t))
      then Inr (tokenNode t (tokenRuns ms offset (tokenText t)))
      else Inl InvalidCharacterError)"
  by (simp add: renderToken_def tokenResult_nodes highlightRuns_nodes withChildren_tokenNode)

lemma renderHighlighted_nodes:
  "renderHighlighted v ms offset ts fragment =
     (if tokensOK v ms offset ts then Inr (highlightedNodes ms offset ts fragment)
      else Inl InvalidCharacterError)"
  by (induction ts arbitrary: offset fragment) (simp_all add: renderToken_nodes)

lemma renderPlain_nodes:
  "renderPlain v ts fragment =
     (if list_all (tagOK v) ts then Inr (plainNodes ts fragment) else Inl InvalidCharacterError)"
  by (induction ts arbitrary: fragment) (simp_all add: createElement_def tagOK_def)

lemma renderTokensWithMatches_nodes:
  "renderTokensWithMatches v ms ts =
     (if (if ms = [] then list_all (tagOK v) ts else tokensOK v ms 0 ts)
      then Inr (renderedFragment ms ts) else Inl InvalidCharacterError)"
  by (simp add: renderTokensWithMatches_def renderedFragment_def renderPlain_nodes
        renderHighlighted_nodes)

lemma tokensOK_tags: "tokensOK v ms offset ts \<Longrightarrow> list_all (tagOK v) ts"
  by (induction ts arbitrary: offset) auto

lemma tokensOK_valid:
  "v ''search-highlight'' \<Longrightarrow> list_all (tagOK v) ts \<Longrightarrow> tokensOK v ms offset ts"
  by (induction ts arbitrary: offset) (simp_all add: runsOK_def)

lemma tagOK_all:
  "list_all (tagOK v) ts = (\<forall>t \<in> set ts. truthy (tagName t) \<longrightarrow> v (the (tagName t)))"
  by (auto simp add: list_all_iff tagOK_def)


lemma render_success:
  assumes "validName ''search-highlight''"
    and "\<forall>t \<in> set tokens. truthy (tagName t) \<longrightarrow> validName (the (tagName t))"
  shows "renderTokensWithMatches validName matches tokens = Inr (renderedFragment matches tokens)"
proof -
  have a: "list_all (tagOK validName) tokens" using assms(2) by (simp add: tagOK_all)
  from tokensOK_valid[OF assms(1) a] a show ?thesis
    by (simp add: renderTokensWithMatches_nodes)
qed

lemma render_Inr:
  "renderTokensWithMatches validName matches tokens = Inr fragment \<Longrightarrow>
   fragment = renderedFragment matches tokens"
  by (simp add: renderTokensWithMatches_nodes split: if_splits)

lemma render_failure:
  assumes "\<exists>t \<in> set tokens. truthy (tagName t) \<and> \<not> validName (the (tagName t))"
  shows "renderTokensWithMatches validName matches tokens = Inl InvalidCharacterError"
proof -
  have a: "\<not> list_all (tagOK validName) tokens" using assms by (auto simp add: tagOK_all)
  then have "\<not> tokensOK validName matches 0 tokens" using tokensOK_tags by blast
  with a show ?thesis by (simp add: renderTokensWithMatches_nodes)
qed

text \<open>
  C4. Round trip of the match renderer: for every token list and every array of matched
  offsets (empty, full range, or anything else), whenever the renderer returns a
  fragment, its text content, that is the texts of all rendered runs in order, is the
  concatenation of the texts of the tokens. It returns a fragment whenever the document
  accepts \<open>search-highlight\<close> and the tag names of the tokens.
\<close>

theorem renderTokensWithMatches_roundtrip:
  "(\<forall>fragment. renderTokensWithMatches validName matches tokens = Inr fragment \<longrightarrow>
                textContent fragment = concat (map tokenText tokens))
   \<and> (validName ''search-highlight'' \<and>
       (\<forall>t \<in> set tokens. truthy (tagName t) \<longrightarrow> validName (the (tagName t))) \<longrightarrow>
       (\<exists>fragment. renderTokensWithMatches validName matches tokens = Inr fragment))"
proof (intro conjI allI impI)
  fix fragment
  assume "renderTokensWithMatches validName matches tokens = Inr fragment"
  then have "fragment = renderedFragment matches tokens" by (rule render_Inr)
  then show "textContent fragment = concat (map tokenText tokens)"
    by (simp add: renderTokens_text)
next
  assume "validName ''search-highlight'' \<and>
       (\<forall>t \<in> set tokens. truthy (tagName t) \<longrightarrow> validName (the (tagName t)))"
  then have "renderTokensWithMatches validName matches tokens = Inr (renderedFragment matches tokens)"
    using render_success[of validName tokens matches] by blast
  then show "\<exists>fragment. renderTokensWithMatches validName matches tokens = Inr fragment"
    by blast
qed

text \<open>The instance \<open>page.click(selector)\<close> with the matches \<open>0..5\<close>.\<close>

theorem renderTokensWithMatches_roundtrip_witness:
  "renderTokensWithMatches xmlName [0, 1, 2, 3, 4, 5] pageClick =
     Inr (DocumentFragment
       [Element ''search-item-api-method-class'' [Element ''search-highlight'' [Text ''page.'']],
        Element ''search-item-api-method-name'' [Element ''search-highlight'' [Text ''c''], Text ''lick(selector)'']])
   \<and> textContent (DocumentFragment
       [Element ''search-item-api-method-class'' [Element ''search-highlight'' [Text ''page.'']],
        Element ''search-item-api-method-name'' [Element ''search-highlight'' [Text ''c''], Text ''lick(selector)'']])
     = concat (map tokenText pageClick)"
proof -
  have r: "renderTokensWithMatches xmlName [0, 1, 2, 3, 4, 5] pageClick =
     Inr (DocumentFragment
       [Element ''search-item-api-method-class'' [Element ''search-highlight'' [Text ''page.'']],
        Element ''search-item-api-method-name'' [Element ''search-highlight'' [Text ''c''], Text ''lick(selector)'']])"
    by code_simp
  from renderTokensWithMatches_roundtrip[of xmlName "[0, 1, 2, 3, 4, 5]" pageClick] r
  show ?thesis by blast
qed






section \<open>Offsets outside the text, names outside the document\<close>

lemma tokenRuns_cong:
  "(\<forall>p. p < length tx \<longrightarrow> (int (p + offset) \<in> set ms) = (int (p + offset) \<in> set ms')) \<Longrightarrow>
   tokenRuns ms offset tx = tokenRuns ms' offset tx"
  unfolding tokenRuns_def by (rule loopNodes_cong)

lemma tokensOK_cong:
  "(\<forall>p. p < offset + length (concat (map tokenText ts)) \<longrightarrow> (int p \<in> set ms) = (int p \<in> set ms')) \<Longrightarrow>
   tokensOK v ms offset ts = tokensOK v ms' offset ts"
proof (induction ts arbitrary: offset)
  case Nil
  then show ?case by simp
next
  case (Cons t ts)
  have "\<forall>p. p < length (tokenText t) \<longrightarrow> (int (p + offset) \<in> set ms) = (int (p + offset) \<in> set ms')"
  proof (intro allI impI)
    fix p assume "p < length (tokenText t)"
    then have "p + offset < offset + length (concat (map tokenText (t # ts)))" by simp
    then show "(int (p + offset) \<in> set ms) = (int (p + offset) \<in> set ms')"
      using Cons.prems by blast
  qed
  then have a: "tokenRuns ms offset (tokenText t) = tokenRuns ms' offset (tokenText t)"
    by (rule tokenRuns_cong)
  have b: "\<forall>p. p < offset + length (tokenText t) + length (concat (map tokenText ts)) \<longrightarrow>
              (int p \<in> set ms) = (int p \<in> set ms')"
    using Cons.prems by (simp add: add.assoc)
  show ?case
    using Cons.IH[OF b] a by simp
qed

lemma runsOK_setTextContent: "runsOK v (setTextContent s)"
  by (simp add: runsOK_def setTextContent_def)

lemma tokensOK_noMatch:
  "(\<forall>p. p < offset + length (concat (map tokenText ts)) \<longrightarrow> int p \<notin> set ms) \<Longrightarrow>
   tokensOK v ms offset ts = list_all (tagOK v) ts"
proof (induction ts arbitrary: offset)
  case Nil
  then show ?case by simp
next
  case (Cons t ts)
  have "\<forall>p. p < length (tokenText t) \<longrightarrow> int (p + offset) \<notin> set ms"
  proof (intro allI impI)
    fix p assume "p < length (tokenText t)"
    then have "p + offset < offset + length (concat (map tokenText (t # ts)))" by simp
    then show "int (p + offset) \<notin> set ms"
      using Cons.prems by blast
  qed
  then have a: "tokenRuns ms offset (tokenText t) = setTextContent (tokenText t)"
    by (rule tokenRuns_noMatch)
  have b: "\<forall>p. p < offset + length (tokenText t) + length (concat (map tokenText ts)) \<longrightarrow> int p \<notin> set ms"
    using Cons.prems by (simp add: add.assoc)
  show ?case
    using Cons.IH[OF b] a by (simp add: runsOK_setTextContent)
qed

lemma render_inRange:
  assumes "matches = [] \<or> inRangeMatches tokens matches \<noteq> [] \<or>
           (\<forall>t \<in> set tokens. truthy (tagName t) \<or> tokenText t \<noteq> [])"
  shows "renderTokensWithMatches validName matches tokens =
         renderTokensWithMatches validName (inRangeMatches tokens matches) tokens"
proof -
  let ?ms' = "inRangeMatches tokens matches"
  have nodes: "renderedFragment matches tokens = renderedFragment ?ms' tokens"
    using assms by (rule renderedFragment_inRange)
  have e: "matches = [] \<Longrightarrow> ?ms' = []"
    by (simp add: inRangeMatches_def)
  have ok: "(if matches = [] then list_all (tagOK validName) tokens else tokensOK validName matches 0 tokens)
          = (if ?ms' = [] then list_all (tagOK validName) tokens else tokensOK validName ?ms' 0 tokens)"
  proof (cases "matches = []")
    case True
    then show ?thesis using e by simp
  next
    case ne: False
    show ?thesis
    proof (cases "?ms' = []")
      case False
      have "tokensOK validName matches 0 tokens = tokensOK validName ?ms' 0 tokens"
        by (rule tokensOK_cong) (simp add: inRange_mem)
      then show ?thesis using ne False by simp
    next
      case True
      have "tokensOK validName matches 0 tokens = list_all (tagOK validName) tokens"
      proof (rule tokensOK_noMatch, intro allI impI)
        fix p assume "p < 0 + length (concat (map tokenText tokens))"
        then have "(int p \<in> set ?ms') = (int p \<in> set matches)"
          by (simp add: inRange_mem)
        with True show "int p \<notin> set matches" by simp
      qed
      then show ?thesis using ne True by simp
    qed
  qed
  show ?thesis
    unfolding renderTokensWithMatches_nodes nodes ok ..
qed

text \<open>
  C10, as amended. The renderer is a total function. It returns a fragment whenever the
  document accepts \<open>search-highlight\<close> and the tag names of the tokens, and it raises
  \<open>InvalidCharacterError\<close> whenever the document rejects the tag name of a token.
  Whenever the array of matches is empty, or one of its offsets lies in
  \<open>[0, total length)\<close>, or no token is both without tag name and without text, the
  outcome (the fragment or the error) is the outcome on the matches that lie in that
  range.
\<close>

theorem out_of_range_matches_ignored:
  "(validName ''search-highlight'' \<and>
    (\<forall>t \<in> set tokens. truthy (tagName t) \<longrightarrow> validName (the (tagName t))) \<longrightarrow>
    (\<exists>fragment. renderTokensWithMatches validName matches tokens = Inr fragment))
   \<and> ((\<exists>t \<in> set tokens. truthy (tagName t) \<and> \<not> validName (the (tagName t))) \<longrightarrow>
       renderTokensWithMatches validName matches tokens = Inl InvalidCharacterError)
   \<and> (matches = [] \<or> inRangeMatches tokens matches \<noteq> [] \<or>
       (\<forall>t \<in> set tokens. truthy (tagName t) \<or> tokenText t \<noteq> []) \<longrightarrow>
       renderTokensWithMatches validName matches tokens =
       renderTokensWithMatches validName (inRangeMatches tokens matches) tokens)"
proof (intro conjI impI)
  assume "validName ''search-highlight'' \<and>
    (\<forall>t \<in> set tokens. truthy (tagName t) \<longrightarrow> validName (the (tagName t)))"
  then have "renderTokensWithMatches validName matches tokens = Inr (renderedFragment matches tokens)"
    using render_success[of validName tokens matches] by blast
  then show "\<exists>fragment. renderTokensWithMatches validName matches tokens = Inr fragment"
    by blast
next
  assume "\<exists>t \<in> set tokens. truthy (tagName t) \<and> \<not> validName (the (tagName t))"
  then show "renderTokensWithMatches validName matches tokens = Inl InvalidCharacterError"
    by (rule render_failure)
next
  assume "matches = [] \<or> inRangeMatches tokens matches \<noteq> [] \<or>
       (\<forall>t \<in> set tokens. truthy (tagName t) \<or> tokenText t \<noteq> [])"
  then show "renderTokensWithMatches validName matches tokens =
       renderTokensWithMatches validName (inRangeMatches tokens matches) tokens"
    by (rule render_inRange)
qed

text \<open>
  Instances: all tokens of \<open>page.click(selector)\<close> have a valid tag name and the offset
  \<open>100\<close> is dropped; the tag name \<open>a b\<close> is rejected.
\<close>

theorem out_of_range_matches_ignored_witness:
  "xmlName ''search-highlight''
   \<and> renderTokensWithMatches xmlName [0, 100] pageClick =
       Inr (DocumentFragment
         [Element ''search-item-api-method-class'' [Element ''search-highlight'' [Text ''p''], Text ''age.''],
          Element ''search-item-api-method-name'' [Text ''click(selector)'']])
   \<and> inRangeMatches pageClick [0, 100] = [0]
   \<and> renderTokensWithMatches xmlName [0, 100] pageClick = renderTokensWithMatches xmlName [0] pageClick
   \<and> renderTokensWithMatches xmlName [0, 100] badTag = Inl InvalidCharacterError"
proof -
  have v: "xmlName ''search-highlight''" by code_simp
  have tags: "\<forall>t \<in> set pageClick. truthy (tagName t) \<longrightarrow> xmlName (the (tagName t))" by code_simp
  have bad: "\<exists>t \<in> set badTag. truthy (tagName t) \<and> \<not> xmlName (the (tagName t))" by code_simp
  have r: "inRangeMatches pageClick [0, 100] = [0]"
    by (simp add: pageClick_def inRangeMatches_def)
  have e: "renderTokensWithMatches xmlName [0, 100] pageClick =
       Inr (DocumentFragment
         [Element ''search-item-api-method-class'' [Element ''search-highlight'' [Text ''p''], Text ''age.''],
          Element ''search-item-api-method-name'' [Text ''click(selector)'']])"
    by code_simp
  have ne: "inRangeMatches pageClick [0, 100] \<noteq> []" using r by simp
  from out_of_range_matches_ignored[of xmlName pageClick "[0, 100]"] ne
  have same: "renderTokensWithMatches xmlName [0, 100] pageClick =
        renderTokensWithMatches xmlName (inRangeMatches pageClick [0, 100]) pageClick"
    by blast
  from out_of_range_matches_ignored[of xmlName pageClick "[0, 100]"] v tags
  have "\<exists>fragment. renderTokensWithMatches xmlName [0, 100] pageClick = Inr fragment" by blast
  from out_of_range_matches_ignored[of xmlName badTag "[0, 100]"] bad
  have b: "renderTokensWithMatches xmlName [0, 100] badTag = Inl InvalidCharacterError" by blast
  from v e r same b show ?thesis by simp
qed

text \<open>
  C10 as stated fails twice. For a token without tag name and without text, when the
  only offset is out of range, the main branch appends nothing for the token, while the
  branch for an empty array (which the in-range subset is) appends an empty text node.
  And a token whose tag name has a space makes \<open>document.createElement\<close> throw.
\<close>

theorem out_of_range_matches_counterexample:
  "renderTokensWithMatches xmlName [5] [\<lparr>tokenText = '''', tagName = None\<rparr>] = Inr (DocumentFragment [])
   \<and> inRangeMatches [\<lparr>tokenText = '''', tagName = None\<rparr>] [5] = []
   \<and> renderTokensWithMatches xmlName (inRangeMatches [\<lparr>tokenText = '''', tagName = None\<rparr>] [5])
        [\<lparr>tokenText = '''', tagName = None\<rparr>] = Inr (DocumentFragment [Text ''''])
   \<and> renderTokensWithMatches xmlName [5] [\<lparr>tokenText = '''', tagName = None\<rparr>] \<noteq>
     renderTokensWithMatches xmlName (inRangeMatches [\<lparr>tokenText = '''', tagName = None\<rparr>] [5])
        [\<lparr>tokenText = '''', tagName = None\<rparr>]
   \<and> renderTokensWithMatches xmlName [0] [\<lparr>tokenText = ''ab'', tagName = Some ''a b''\<rparr>]
       = Inl InvalidCharacterError"
  by code_simp

section \<open>Facts about the build phase\<close>

lemma freshOutline_new: "freshOutline rn (newOutline cn rn)"
  by (simp add: freshOutline_def newOutline_def freshMap_def)

lemma set_update_subset: "set (AList.update k v al) \<subseteq> insert (k, v) (set al)"
  by (induction al) auto

lemma freshMap_update: "freshMap rn m \<Longrightarrow> freshMap rn (AList.update n rn m)"
  using set_update_subset[of n rn m] by (auto simp add: freshMap_def distinct_update)

lemma freshOutline_add:
  assumes "freshOutline rn c"
  shows "freshOutline rn (c\<lparr>eventsSince := AList.update n rn (eventsSince c)\<rparr>)"
    and "freshOutline rn (c\<lparr>methodsSince := AList.update n rn (methodsSince c)\<rparr>)"
    and "freshOutline rn (c\<lparr>namespacesSince := AList.update n rn (namespacesSince c)\<rparr>)"
  using assms by (simp_all add: freshOutline_def freshMap_update)

lemma freshOutline_kind:
  "freshOutline rn c \<Longrightarrow> freshMap rn (sinceOf k c) \<and> untilOf k c = []"
  by (cases k) (simp_all add: freshOutline_def)

lemma freshState_seal:
  "freshState rn (co, m) \<Longrightarrow> \<forall>p \<in> set (seal co m). freshOutline rn (snd p)"
proof (cases co)
  case None
  assume "freshState rn (co, m)"
  then show ?thesis using None by (simp add: freshState_def)
next
  case (Some a)
  assume f: "freshState rn (co, m)"
  show ?thesis
  proof
    fix p assume "p \<in> set (seal co m)"
    then have "p = (className a, a) \<or> p \<in> set m"
      using Some set_update_subset[of "className a" a m] by auto
    then show "freshOutline rn (snd p)"
      using f Some by (auto simp add: freshState_def)
  qed
qed

lemma scanTitle_fresh:
  "freshState rn st \<Longrightarrow> scanTitle rn title st = Inr st' \<Longrightarrow> freshState rn st'"
proof -
  assume f: "freshState rn st" and s: "scanTitle rn title st = Inr st'"
  obtain co m where st: "st = (co, m)" by (cases st)
  have m: "\<forall>p \<in> set m. freshOutline rn (snd p)" and c: "\<And>c. co = Some c \<Longrightarrow> freshOutline rn c"
    using f st by (simp_all add: freshState_def)
  show ?thesis
  proof (cases "classRegex title")
    case (Some cn)
    then have "st' = (Some (newOutline cn rn), seal co m)"
      using s st by (simp add: scanTitle_def)
    then show ?thesis
      using freshState_seal[of rn co m] f st by (simp add: freshState_def freshOutline_new)
  next
    case None
    then show ?thesis
      using s st m c
      by (auto simp add: scanTitle_def freshState_def freshOutline_add split: option.splits)
  qed
qed

lemma scanTitles_fresh:
  "freshState rn st \<Longrightarrow> scanTitles rn ts st = Inr st' \<Longrightarrow> freshState rn st'"
proof (induction ts arbitrary: st)
  case Nil
  then show ?case by simp
next
  case (Cons t ts)
  then show ?case
    by (auto split: sum.splits dest: scanTitle_fresh)
qed

lemma buildRelease_built:
  "buildRelease r = Inr b \<Longrightarrow> builtRelease b \<and> name b = name r"
proof -
  assume a: "buildRelease r = Inr b"
  then obtain co m where s: "scanTitles (name r) (titles (apiText r)) (None, []) = Inr (co, m)"
    and b: "b = release.extend r \<lparr>classesLifespan = seal co m\<rparr>"
    by (auto simp add: buildRelease_def split: sum.splits prod.splits)
  have "freshState (name r) (None, [])" by (simp add: freshState_def)
  from scanTitles_fresh[OF this s] have "\<forall>p \<in> set (seal co m). freshOutline (name r) (snd p)"
    by (rule freshState_seal)
  then show ?thesis
    using b by (simp add: builtRelease_def release.defs)
qed

lemma buildPhase_built:
  "buildPhase rs = Inr bs \<Longrightarrow> list_all builtRelease bs \<and> map name bs = map name rs"
proof (induction rs arbitrary: bs)
  case Nil
  then show ?case by simp
next
  case (Cons r rs)
  then show ?case
    by (auto split: sum.splits prod.splits dest: buildRelease_built)
qed

section \<open>Facts about the since phase\<close>

lemma carrySince_keys: "map fst (carrySince previous current) = map fst current"
proof -
  have "map fst (fold (\<lambda>(n, since) m. if n \<in> set (map fst m) then AList.update n since m else m) xs cur)
        = map fst cur" for xs cur
    by (induction xs arbitrary: cur) (auto simp add: update_keys split: prod.splits)
  then show ?thesis by (simp add: carrySince_def)
qed

lemma carrySince_map_of:
  "distinct (map fst previous) \<Longrightarrow>
   map_of (carrySince previous current) n =
     (if n \<in> set (map fst current) \<and> n \<in> set (map fst previous) then map_of previous n
      else map_of current n)"
  unfolding carrySince_def
proof (induction previous arbitrary: current)
  case Nil
  then show ?case by simp
next
  case (Cons x xs)
  obtain q s where x: "x = (q, s)" by (cases x)
  let ?f = "\<lambda>(n, since) m. if n \<in> set (map fst m) then AList.update n since m else m"
  let ?cur = "if q \<in> set (map fst current) then AList.update q s current else current"
  have d: "distinct (map fst xs)" and nq: "q \<notin> set (map fst xs)"
    using Cons.prems x by simp_all
  have step: "fold ?f (x # xs) current = fold ?f xs ?cur"
    by (simp add: x)
  have keys: "map fst ?cur = map fst current"
    by (simp add: update_keys)
  have look: "map_of ?cur n = (if n = q \<and> q \<in> set (map fst current) then Some s else map_of current n)"
    by (simp add: update_conv')
  have IH: "map_of (fold ?f xs ?cur) n =
        (if n \<in> set (map fst current) \<and> n \<in> set (map fst xs) then map_of xs n
         else if n = q \<and> q \<in> set (map fst current) then Some s else map_of current n)"
    using Cons.IH[OF d, of ?cur] unfolding keys look .
  show ?case
  proof (cases "n = q")
    case True
    have "map_of (fold ?f xs ?cur) q = (if q \<in> set (map fst current) then Some s else map_of current q)"
      using IH nq True by simp
    then show ?thesis
      unfolding step using True x by simp
  next
    case False
    have "map_of (fold ?f xs ?cur) n =
        (if n \<in> set (map fst current) \<and> n \<in> set (map fst xs) then map_of xs n else map_of current n)"
      using IH False by simp
    then show ?thesis
      unfolding step using False x by simp
  qed
qed

lemma carrySince_distinct:
  "distinct (map fst current) \<Longrightarrow> distinct (map fst (carrySince previous current))"
  by (simp add: carrySince_keys)


text \<open>What the since step does to one class entry.\<close>

lemma sinceClass_absent:
  "map_of (classesLifespan p) c = None \<Longrightarrow> sinceClass p (c, co) = (c, co)"
  by (simp add: sinceClass_def)

lemma sinceClass_present:
  assumes "map_of (classesLifespan p) c = Some pco"
  shows "fst (sinceClass p (c, co)) = c"
    and "since (snd (sinceClass p (c, co))) = since pco"
    and "until (snd (sinceClass p (c, co))) = until co"
    and "sinceOf k (snd (sinceClass p (c, co))) = carrySince (sinceOf k pco) (sinceOf k co)"
    and "untilOf k (snd (sinceClass p (c, co))) = untilOf k co"
proof -
  have e: "sinceClass p (c, co) =
      (c, co\<lparr>since := since pco,
                eventsSince := carrySince (eventsSince pco) (eventsSince co),
                methodsSince := carrySince (methodsSince pco) (methodsSince co),
                namespacesSince := carrySince (namespacesSince pco) (namespacesSince co)\<rparr>)"
    using assms by (simp add: sinceClass_def)
  show "fst (sinceClass p (c, co)) = c" by (simp add: e)
  show "since (snd (sinceClass p (c, co))) = since pco" by (simp add: e)
  show "until (snd (sinceClass p (c, co))) = until co" by (simp add: e)
  show "sinceOf k (snd (sinceClass p (c, co))) = carrySince (sinceOf k pco) (sinceOf k co)"
    by (cases k) (simp_all add: e)
  show "untilOf k (snd (sinceClass p (c, co))) = untilOf k co"
    by (cases k) (simp_all add: e)
qed

lemma sinceClass_fst: "fst (sinceClass p e) = fst e"
  by (cases e) (simp add: sinceClass_def split: option.splits)

lemma sinceClass_keys: "map fst (sinceOf k (snd (sinceClass p e))) = map fst (sinceOf k (snd e))"
proof (cases e)
  case (Pair c co)
  show ?thesis
  proof (cases "map_of (classesLifespan p) c")
    case None
    then show ?thesis using Pair by (simp add: sinceClass_absent)
  next
    case (Some pco)
    then show ?thesis using Pair by (simp add: sinceClass_present carrySince_keys)
  qed
qed

lemma sinceClass_until:
  "until (snd (sinceClass p e)) = until (snd e) \<and> untilOf k (snd (sinceClass p e)) = untilOf k (snd e)"
proof (cases e)
  case (Pair c co)
  show ?thesis
  proof (cases "map_of (classesLifespan p) c")
    case None
    then show ?thesis using Pair by (simp add: sinceClass_absent)
  next
    case (Some pco)
    then show ?thesis using Pair by (simp add: sinceClass_present)
  qed
qed

lemma map_of_map_entry:
  "(\<And>e. fst (f e) = fst e) \<Longrightarrow>
   map_of (map f xs) c = map_option (\<lambda>co. snd (f (c, co))) (map_of xs c)"
proof (induction xs)
  case Nil
  then show ?case by simp
next
  case (Cons x xs)
  obtain a b where x: "x = (a, b)" by (cases x)
  have "fst (f (a, b)) = a" using Cons.prems[of "(a, b)"] by simp
  then have "f (a, b) = (a, snd (f (a, b)))" by (metis prod.collapse)
  then show ?case
    using Cons x by (auto simp add: Cons.prems)
qed

lemma sinceStep_name: "name (sinceStep p r) = name r"
  by (simp add: sinceStep_def)

lemma sinceStep_lookup:
  "map_of (classesLifespan (sinceStep p r)) c =
     map_option (\<lambda>co. snd (sinceClass p (c, co))) (map_of (classesLifespan r) c)"
  by (simp add: sinceStep_def map_of_map_entry sinceClass_fst)

lemma sinceStep_keysDistinct: "keysDistinct r \<Longrightarrow> keysDistinct (sinceStep p r)"
  by (auto simp add: keysDistinct_def sinceStep_def sinceClass_keys)

lemma sinceStep_noUntil: "noUntil r \<Longrightarrow> noUntil (sinceStep p r)"
  by (auto simp add: noUntil_def sinceStep_def sinceClass_until)

text \<open>The loop by index.\<close>

lemma sinceLoop_length: "length (sinceLoop k rs) = length rs"
  by (induction k arbitrary: rs) simp_all

lemma sinceLoop_nth:
  "k < length rs \<Longrightarrow>
   (\<forall>j. k \<le> j \<longrightarrow> sinceLoop k rs ! j = rs ! j) \<and>
   (\<forall>j < k. sinceLoop k rs ! j = sinceStep (sinceLoop k rs ! (j + 1)) (rs ! j))"
proof (induction k arbitrary: rs)
  case 0
  then show ?case by simp
next
  case (Suc i)
  let ?rs' = "rs[i := sinceStep (rs ! (i + 1)) (rs ! i)]"
  let ?fin = "sinceLoop i ?rs'"
  have i: "i < length ?rs'" using Suc.prems by simp
  from Suc.IH[OF i] have
    up: "\<And>j. i \<le> j \<Longrightarrow> ?fin ! j = ?rs' ! j" and
    down: "\<And>j. j < i \<Longrightarrow> ?fin ! j = sinceStep (?fin ! (j + 1)) (?rs' ! j)"
    by blast+
  have e: "sinceLoop (Suc i) rs = ?fin" by simp
  have at_i: "?fin ! i = sinceStep (rs ! (i + 1)) (rs ! i)"
    using up[of i] Suc.prems by simp
  have above: "?fin ! j = rs ! j" if "Suc i \<le> j" for j
    using up[of j] that by simp
  show ?case
    unfolding e
  proof (intro conjI allI impI)
    fix j assume "Suc i \<le> j"
    then show "?fin ! j = rs ! j" by (rule above)
  next
    fix j assume j: "j < Suc i"
    show "?fin ! j = sinceStep (?fin ! (j + 1)) (rs ! j)"
    proof (cases "j = i")
      case True
      then show ?thesis using at_i above[of "i + 1"] by simp
    next
      case False
      then have "j < i" using j by simp
      then show ?thesis using down[of j] by simp
    qed
  qed
qed

lemma sincePhase_length: "length (sincePhase rs) = length rs"
  by (simp add: sincePhase_def sinceLoop_length)

lemma sincePhase_nth:
  "i + 1 < length rs \<Longrightarrow> sincePhase rs ! i = sinceStep (sincePhase rs ! (i + 1)) (rs ! i)"
  using sinceLoop_nth[of "length rs - 1" rs] by (simp add: sincePhase_def)

lemma sincePhase_last: "rs \<noteq> [] \<Longrightarrow> sincePhase rs ! (length rs - 1) = rs ! (length rs - 1)"
  using sinceLoop_nth[of "length rs - 1" rs] by (simp add: sincePhase_def)

lemma sincePhase_cases:
  "i < length rs \<Longrightarrow>
   sincePhase rs ! i = (if i + 1 < length rs then sinceStep (sincePhase rs ! (i + 1)) (rs ! i) else rs ! i)"
proof -
  assume i: "i < length rs"
  show ?thesis
  proof (cases "i + 1 < length rs")
    case True
    then show ?thesis by (simp add: sincePhase_nth)
  next
    case False
    then have e: "i = length rs - 1" using i by simp
    have "rs \<noteq> []" using i by auto
    from sincePhase_last[OF this] show ?thesis using False e by simp
  qed
qed



lemma sinceStep_classKeys: "map fst (classesLifespan (sinceStep p r)) = map fst (classesLifespan r)"
  by (simp add: sinceStep_def sinceClass_fst)

lemma sincePhase_inv:
  assumes "i < length rs"
  shows "name (sincePhase rs ! i) = name (rs ! i)"
    and "keysDistinct (rs ! i) \<Longrightarrow> keysDistinct (sincePhase rs ! i)"
    and "noUntil (rs ! i) \<Longrightarrow> noUntil (sincePhase rs ! i)"
    and "map fst (classesLifespan (sincePhase rs ! i)) = map fst (classesLifespan (rs ! i))"
proof -
  have "sincePhase rs ! i = rs ! i \<or> (\<exists>p. sincePhase rs ! i = sinceStep p (rs ! i))"
    using sincePhase_cases[OF assms] by (cases "i + 1 < length rs") auto
  then consider "sincePhase rs ! i = rs ! i" | p where "sincePhase rs ! i = sinceStep p (rs ! i)"
    by blast
  note c = this
  show "name (sincePhase rs ! i) = name (rs ! i)"
    by (rule c) (simp_all add: sinceStep_name)
  show "map fst (classesLifespan (sincePhase rs ! i)) = map fst (classesLifespan (rs ! i))"
    by (rule c) (simp_all add: sinceStep_classKeys)
  show "keysDistinct (sincePhase rs ! i)" if "keysDistinct (rs ! i)"
    by (rule c) (simp_all add: that sinceStep_keysDistinct)
  show "noUntil (sincePhase rs ! i)" if "noUntil (rs ! i)"
    by (rule c) (simp_all add: that sinceStep_noUntil)
qed

lemma builtRelease_inv: "builtRelease b \<Longrightarrow> keysDistinct b \<and> noUntil b"
proof -
  assume b: "builtRelease b"
  have "distinct (map fst (sinceOf k (snd p))) \<and> untilOf k (snd p) = [] \<and> until (snd p) = []"
    if "p \<in> set (classesLifespan b)" for p k
  proof -
    have f: "freshOutline (name b) (snd p)" using b that by (simp add: builtRelease_def)
    from freshOutline_kind[OF f, of k] f show ?thesis
      by (simp add: freshMap_def freshOutline_def)
  qed
  then show ?thesis by (simp add: keysDistinct_def noUntil_def)
qed

lemma builtRelease_since:
  assumes "builtRelease b" and "map_of (classesLifespan b) c = Some co"
  shows "since co = name b"
    and "n \<in> set (map fst (sinceOf k co)) \<Longrightarrow> map_of (sinceOf k co) n = Some (name b)"
proof -
  have "(c, co) \<in> set (classesLifespan b)" using assms(2) by (rule map_of_SomeD)
  then have f: "freshOutline (name b) co" using assms(1) by (force simp add: builtRelease_def)
  then show "since co = name b" by (simp add: freshOutline_def)
  assume n: "n \<in> set (map fst (sinceOf k co))"
  have m: "freshMap (name b) (sinceOf k co)" using freshOutline_kind[OF f] by simp
  from n obtain v where v: "(n, v) \<in> set (sinceOf k co)" by auto
  then have "v = name b" using m by (force simp add: freshMap_def)
  moreover have "map_of (sinceOf k co) n = Some v"
    using m v by (simp add: freshMap_def)
  ultimately show "map_of (sinceOf k co) n = Some (name b)" by simp
qed


lemma sincePhase_adjacent:
  assumes "buildPhase releases = Inr built" and "i + 1 < length built"
    and "map_of (classesLifespan (sincePhase built ! i)) c = Some classOutline"
  shows "case map_of (classesLifespan (sincePhase built ! (i + 1))) c of
           None \<Rightarrow>
             since classOutline = name (built ! i) \<and>
             (\<forall>k n. n \<in> set (map fst (sinceOf k classOutline)) \<longrightarrow>
                    map_of (sinceOf k classOutline) n = Some (name (built ! i)))
         | Some previousClassOutline \<Rightarrow>
             since classOutline = since previousClassOutline \<and>
             (\<forall>k n. n \<in> set (map fst (sinceOf k classOutline)) \<longrightarrow>
                    map_of (sinceOf k classOutline) n =
                      (if n \<in> set (map fst (sinceOf k previousClassOutline))
                       then map_of (sinceOf k previousClassOutline) n
                       else Some (name (built ! i))))"
proof -
  let ?fin = "sincePhase built"
  have all: "list_all builtRelease built"
    using buildPhase_built[OF assms(1)] by simp
  have i: "i < length built" and i1: "i + 1 < length built" using assms(2) by simp_all
  have bi: "builtRelease (built ! i)" and bi1: "builtRelease (built ! (i + 1))"
    using all i i1 by (simp_all add: list_all_length)
  have step: "?fin ! i = sinceStep (?fin ! (i + 1)) (built ! i)"
    using assms(2) by (rule sincePhase_nth)
  have dist: "keysDistinct (?fin ! (i + 1))"
    using sincePhase_inv(2)[OF i1] builtRelease_inv[OF bi1] by simp
  from assms(3) obtain co0 where co0: "map_of (classesLifespan (built ! i)) c = Some co0"
    and co: "classOutline = snd (sinceClass (?fin ! (i + 1)) (c, co0))"
    unfolding step sinceStep_lookup by auto
  note fresh = builtRelease_since[OF bi co0]
  show ?thesis
  proof (cases "map_of (classesLifespan (?fin ! (i + 1))) c")
    case None
    then have "classOutline = co0" using co by (simp add: sinceClass_absent)
    then show ?thesis using None fresh by simp
  next
    case (Some pco)
    have "(c, pco) \<in> set (classesLifespan (?fin ! (i + 1)))" using Some by (rule map_of_SomeD)
    then have d: "distinct (map fst (sinceOf k pco))" for k
      using dist by (force simp add: keysDistinct_def)
    have s: "since classOutline = since pco"
      and m: "\<And>k. sinceOf k classOutline = carrySince (sinceOf k pco) (sinceOf k co0)"
      using sinceClass_present[OF Some, where co = co0] co by simp_all
    have "map_of (sinceOf k classOutline) n =
            (if n \<in> set (map fst (sinceOf k pco)) then map_of (sinceOf k pco) n else Some (name (built ! i)))"
      if "n \<in> set (map fst (sinceOf k classOutline))" for k n
    proof -
      have in0: "n \<in> set (map fst (sinceOf k co0))"
        using that unfolding m carrySince_keys .
      show ?thesis
        unfolding m carrySince_map_of[OF d] using in0 fresh(2)[OF in0] by simp
    qed
    then show ?thesis using Some s by simp
  qed
qed

lemma sincePhase_lookup:
  assumes "i < length rs" and "map_of (classesLifespan (rs ! i)) c = Some co0"
  shows "\<exists>co. map_of (classesLifespan (sincePhase rs ! i)) c = Some co \<and>
              (\<forall>k. map fst (sinceOf k co) = map fst (sinceOf k co0))"
proof -
  have "sincePhase rs ! i = rs ! i \<or> (\<exists>p. sincePhase rs ! i = sinceStep p (rs ! i))"
    using sincePhase_cases[OF assms(1)] by (cases "i + 1 < length rs") auto
  then consider "sincePhase rs ! i = rs ! i" | p where "sincePhase rs ! i = sinceStep p (rs ! i)"
    by blast
  then show ?thesis
  proof cases
    case 1
    then show ?thesis using assms(2) by simp
  next
    case 2
    have "map_of (classesLifespan (sincePhase rs ! i)) c = Some (snd (sinceClass p (c, co0)))"
      unfolding 2 sinceStep_lookup assms(2) by simp
    moreover have "map fst (sinceOf k (snd (sinceClass p (c, co0)))) = map fst (sinceOf k co0)" for k
      using sinceClass_keys[of k p "(c, co0)"] by simp
    ultimately show ?thesis by blast
  qed
qed

lemma sincePhase_adjacent_scanned:
  assumes "buildPhase releases = Inr built" and "i + 1 < length built"
    and "map_of (classesLifespan (built ! i)) c = Some scanned"
  shows "\<exists>classOutline.
           map_of (classesLifespan (sincePhase built ! i)) c = Some classOutline \<and>
           (\<forall>k. map fst (sinceOf k classOutline) = map fst (sinceOf k scanned)) \<and>
           (case map_of (classesLifespan (built ! (i + 1))) c of
              None \<Rightarrow>
                since classOutline = name (built ! i) \<and>
                (\<forall>k n. n \<in> set (map fst (sinceOf k scanned)) \<longrightarrow>
                       map_of (sinceOf k classOutline) n = Some (name (built ! i)))
            | Some previousScanned \<Rightarrow>
                (\<exists>previousClassOutline.
                    map_of (classesLifespan (sincePhase built ! (i + 1))) c = Some previousClassOutline \<and>
                    (\<forall>k. map fst (sinceOf k previousClassOutline) = map fst (sinceOf k previousScanned)) \<and>
                    since classOutline = since previousClassOutline \<and>
                    (\<forall>k n. n \<in> set (map fst (sinceOf k scanned)) \<longrightarrow>
                           map_of (sinceOf k classOutline) n =
                             (if n \<in> set (map fst (sinceOf k previousScanned))
                              then map_of (sinceOf k previousClassOutline) n
                              else Some (name (built ! i))))))"
proof -
  let ?fin = "sincePhase built"
  have i: "i < length built" and i1: "i + 1 < length built" using assms(2) by simp_all
  from sincePhase_lookup[OF i assms(3)] obtain co where
    co: "map_of (classesLifespan (?fin ! i)) c = Some co"
    and keys: "\<And>k. map fst (sinceOf k co) = map fst (sinceOf k scanned)"
    by blast
  note adj = sincePhase_adjacent[OF assms(1,2) co]
  show ?thesis
  proof (cases "map_of (classesLifespan (built ! (i + 1))) c")
    case None
    have "map_of (classesLifespan (?fin ! (i + 1))) c = None"
    proof (rule ccontr)
      assume "map_of (classesLifespan (?fin ! (i + 1))) c \<noteq> None"
      then have "c \<in> set (map fst (classesLifespan (?fin ! (i + 1))))"
        by (simp add: map_of_eq_None_iff)
      then have "c \<in> set (map fst (classesLifespan (built ! (i + 1))))"
        unfolding sincePhase_inv(4)[OF i1] .
      then show False using None by (simp add: map_of_eq_None_iff)
    qed
    with adj have "since co = name (built ! i)"
      and "\<forall>k n. n \<in> set (map fst (sinceOf k co)) \<longrightarrow>
              map_of (sinceOf k co) n = Some (name (built ! i))"
      by simp_all
    then show ?thesis
      using co keys None by (auto simp only: option.case)
  next
    case (Some ps)
    from sincePhase_lookup[OF i1 Some] obtain pco where
      pco: "map_of (classesLifespan (?fin ! (i + 1))) c = Some pco"
      and pkeys: "\<And>k. map fst (sinceOf k pco) = map fst (sinceOf k ps)"
      by blast
    from adj pco have s: "since co = since pco"
      and v: "\<forall>k n. n \<in> set (map fst (sinceOf k co)) \<longrightarrow>
                 map_of (sinceOf k co) n =
                   (if n \<in> set (map fst (sinceOf k pco)) then map_of (sinceOf k pco) n
                    else Some (name (built ! i)))"
      by simp_all
    have v': "\<forall>k n. n \<in> set (map fst (sinceOf k scanned)) \<longrightarrow>
                 map_of (sinceOf k co) n =
                   (if n \<in> set (map fst (sinceOf k ps)) then map_of (sinceOf k pco) n
                    else Some (name (built ! i)))"
      using v unfolding keys pkeys .
    show ?thesis
      unfolding Some option.case
      using co keys pco pkeys s v' by blast
  qed
qed

text \<open>
  C2. Take the releases as the build phase left them (\<open>built\<close>), a release \<open>R\<close> at
  index \<open>i\<close> with a class the scan found (\<open>scanned\<close>), and the older neighbour at index
  \<open>i + 1\<close>. After the since phase the class is still there with the same event, method
  and namespace names. If the scan of the neighbour found the class too, the class
  carries the neighbour's \<open>since\<close>, and each name the scan found in both carries the
  neighbour's \<open>*Since\<close> entry (as the phase leaves the neighbour); every other name of
  \<open>R\<close>, and everything in a class the neighbour does not have, keeps the name of \<open>R\<close>.
\<close>

theorem since_propagation:
  assumes "buildPhase releases = Inr built" and "i + 1 < length built"
    and "map_of (classesLifespan (built ! i)) c = Some scanned"
  shows "\<exists>classOutline.
           map_of (classesLifespan (sincePhase built ! i)) c = Some classOutline \<and>
           (\<forall>k. map fst (sinceOf k classOutline) = map fst (sinceOf k scanned)) \<and>
           (case map_of (classesLifespan (built ! (i + 1))) c of
              None \<Rightarrow>
                since classOutline = name (built ! i) \<and>
                (\<forall>k n. n \<in> set (map fst (sinceOf k scanned)) \<longrightarrow>
                       map_of (sinceOf k classOutline) n = Some (name (built ! i)))
            | Some previousScanned \<Rightarrow>
                (\<exists>previousClassOutline.
                    map_of (classesLifespan (sincePhase built ! (i + 1))) c = Some previousClassOutline \<and>
                    (\<forall>k. map fst (sinceOf k previousClassOutline) = map fst (sinceOf k previousScanned)) \<and>
                    since classOutline = since previousClassOutline \<and>
                    (\<forall>k n. n \<in> set (map fst (sinceOf k scanned)) \<longrightarrow>
                           map_of (sinceOf k classOutline) n =
                             (if n \<in> set (map fst (sinceOf k previousScanned))
                              then map_of (sinceOf k previousClassOutline) n
                              else Some (name (built ! i))))))"
  using assms by (rule sincePhase_adjacent_scanned)

text \<open>
  Two releases with \<open>Page\<close>: \<open>close\<close> is in both and carries \<open>v1.0.0\<close>, \<open>goto\<close> is only
  in the newer one and keeps \<open>v2.0.0\<close>.
\<close>

theorem since_propagation_witness:
  "buildPhase carryReleases = Inr carryBuilt
   \<and> map_of (classesLifespan (carryBuilt ! 0)) ''Page''
       = Some (pageOutline ''v2.0.0'' [(''close'', ''v2.0.0''), (''goto'', ''v2.0.0'')] [])
   \<and> map_of (classesLifespan (carryBuilt ! (0 + 1))) ''Page''
       = Some (pageOutline ''v1.0.0'' [(''close'', ''v1.0.0'')] [])
   \<and> map_of (classesLifespan (sincePhase carryBuilt ! 0)) ''Page''
       = Some (pageOutline ''v1.0.0'' [(''close'', ''v1.0.0''), (''goto'', ''v2.0.0'')] [])
   \<and> map_of (classesLifespan (sincePhase carryBuilt ! (0 + 1))) ''Page''
       = Some (pageOutline ''v1.0.0'' [(''close'', ''v1.0.0'')] [])
   \<and> since (pageOutline ''v1.0.0'' [(''close'', ''v1.0.0''), (''goto'', ''v2.0.0'')] [])
       = since (pageOutline ''v1.0.0'' [(''close'', ''v1.0.0'')] [])
   \<and> map_of (sinceOf Method (pageOutline ''v1.0.0'' [(''close'', ''v1.0.0''), (''goto'', ''v2.0.0'')] [])) ''close''
       = map_of (sinceOf Method (pageOutline ''v1.0.0'' [(''close'', ''v1.0.0'')] [])) ''close''
   \<and> map_of (sinceOf Method (pageOutline ''v1.0.0'' [(''close'', ''v1.0.0''), (''goto'', ''v2.0.0'')] [])) ''goto''
       = Some (name (carryBuilt ! 0))"
proof -
  let ?scanned = "pageOutline ''v2.0.0'' [(''close'', ''v2.0.0''), (''goto'', ''v2.0.0'')] []"
  let ?prevScanned = "pageOutline ''v1.0.0'' [(''close'', ''v1.0.0'')] []"
  let ?after = "pageOutline ''v1.0.0'' [(''close'', ''v1.0.0''), (''goto'', ''v2.0.0'')] []"
  let ?prev = "pageOutline ''v1.0.0'' [(''close'', ''v1.0.0'')] []"
  have b: "buildPhase carryReleases = Inr carryBuilt" by code_simp
  have l: "0 + 1 < length carryBuilt" by (simp add: carryBuilt_def)
  have s0: "map_of (classesLifespan (carryBuilt ! 0)) ''Page'' = Some ?scanned" by code_simp
  have s1: "map_of (classesLifespan (carryBuilt ! (0 + 1))) ''Page'' = Some ?prevScanned" by code_simp
  have a0: "map_of (classesLifespan (sincePhase carryBuilt ! 0)) ''Page'' = Some ?after" by code_simp
  have a1: "map_of (classesLifespan (sincePhase carryBuilt ! (0 + 1))) ''Page'' = Some ?prev" by code_simp
  have k: "''close'' \<in> set (map fst (sinceOf Method ?scanned))"
    "''goto'' \<in> set (map fst (sinceOf Method ?scanned))"
    "''close'' \<in> set (map fst (sinceOf Method ?prevScanned))"
    "''goto'' \<notin> set (map fst (sinceOf Method ?prevScanned))"
    by (simp_all add: pageOutline_def)
  from since_propagation[OF b l s0, unfolded a0 s1 a1]
  have s: "since ?after = since ?prev"
    and q: "\<forall>k n. n \<in> set (map fst (sinceOf k ?scanned)) \<longrightarrow>
              map_of (sinceOf k ?after) n =
                (if n \<in> set (map fst (sinceOf k ?prevScanned)) then map_of (sinceOf k ?prev) n
                 else Some (name (carryBuilt ! 0)))"
    by simp_all
  from q[rule_format, OF k(1)] k(3)
  have c: "map_of (sinceOf Method ?after) ''close'' = map_of (sinceOf Method ?prev) ''close''"
    by simp
  from q[rule_format, OF k(2)] k(4)
  have g: "map_of (sinceOf Method ?after) ''goto'' = Some (name (carryBuilt ! 0))"
    by simp
  from b s0 s1 a0 a1 s c g show ?thesis by blast
qed

section \<open>Facts about the until phase\<close>

lemma vanishUntil_map_of:
  "map_of (vanishUntil nextName u) n = (if n \<in> set (map fst u) then Some nextName else None)"
proof -
  have "map_of (fold (\<lambda>n m. AList.update n nextName m) ks m) n =
          (if n \<in> set ks then Some nextName else map_of m n)" for ks m
    by (induction ks arbitrary: m) (simp_all add: update_conv')
  from this[of "map fst u" u] show ?thesis
    by (auto simp add: vanishUntil_def map_of_eq_None_iff)
qed

lemma vanishUntil_Nil: "vanishUntil nextName [] = []"
  by (simp add: vanishUntil_def)

lemma resolveUntil_map_of:
  "map_of (resolveUntil nextName nextUntil nextSince s u) n =
     (if n \<in> set (map fst s)
      then (case map_of nextUntil n of
              Some v \<Rightarrow> Some v
            | None \<Rightarrow> if n \<notin> set (map fst nextSince) then Some nextName else map_of u n)
      else map_of u n)"
proof -
  let ?f = "\<lambda>n m. case map_of nextUntil n of
                    Some v \<Rightarrow> AList.update n v m
                  | None \<Rightarrow> if n \<notin> set (map fst nextSince) then AList.update n nextName m else m"
  have "map_of (fold ?f ks m) n =
     (if n \<in> set ks
      then (case map_of nextUntil n of
              Some v \<Rightarrow> Some v
            | None \<Rightarrow> if n \<notin> set (map fst nextSince) then Some nextName else map_of m n)
      else map_of m n)" for ks m
  proof (induction ks arbitrary: m)
    case Nil
    then show ?case by simp
  next
    case (Cons k ks)
    have one: "map_of (?f k m) n =
        (if n = k then (case map_of nextUntil n of
              Some v \<Rightarrow> Some v
            | None \<Rightarrow> if n \<notin> set (map fst nextSince) then Some nextName else map_of m n)
         else map_of m n)"
      by (auto simp add: update_conv' split: option.splits)
    show ?case
    proof (cases "n = k")
      case True
      show ?thesis
        unfolding fold_simps Cons.IH one using True by (simp split: option.splits)
    next
      case False
      show ?thesis
        unfolding fold_simps Cons.IH one using False by simp
    qed
  qed
  then show ?thesis by (simp add: resolveUntil_def)
qed

lemma untilClass_absent:
  assumes "map_of (classesLifespan nx) c = None"
  shows "fst (untilClass nx (c, co)) = c"
    and "until (snd (untilClass nx (c, co))) = name nx"
    and "since (snd (untilClass nx (c, co))) = since co"
    and "sinceOf k (snd (untilClass nx (c, co))) = sinceOf k co"
    and "untilOf k (snd (untilClass nx (c, co))) = vanishUntil (name nx) (untilOf k co)"
proof -
  have e: "untilClass nx (c, co) =
      (c, co\<lparr>until := name nx,
                eventsUntil := vanishUntil (name nx) (eventsUntil co),
                methodsUntil := vanishUntil (name nx) (methodsUntil co),
                namespacesUntil := vanishUntil (name nx) (namespacesUntil co)\<rparr>)"
    using assms by (simp add: untilClass_def)
  show "fst (untilClass nx (c, co)) = c" by (simp add: e)
  show "until (snd (untilClass nx (c, co))) = name nx" by (simp add: e)
  show "since (snd (untilClass nx (c, co))) = since co" by (simp add: e)
  show "sinceOf k (snd (untilClass nx (c, co))) = sinceOf k co"
    by (cases k) (simp_all add: e)
  show "untilOf k (snd (untilClass nx (c, co))) = vanishUntil (name nx) (untilOf k co)"
    by (cases k) (simp_all add: e)
qed

lemma untilClass_present:
  assumes "map_of (classesLifespan nx) c = Some nco"
  shows "fst (untilClass nx (c, co)) = c"
    and "until (snd (untilClass nx (c, co))) = until nco"
    and "since (snd (untilClass nx (c, co))) = since co"
    and "sinceOf k (snd (untilClass nx (c, co))) = sinceOf k co"
    and "untilOf k (snd (untilClass nx (c, co))) =
           resolveUntil (name nx) (untilOf k nco) (sinceOf k nco) (sinceOf k co) (untilOf k co)"
proof -
  have e: "untilClass nx (c, co) =
      (c, co\<lparr>until := until nco,
                eventsUntil := resolveUntil (name nx) (eventsUntil nco) (eventsSince nco)
                   (eventsSince co) (eventsUntil co),
                methodsUntil := resolveUntil (name nx) (methodsUntil nco) (methodsSince nco)
                   (methodsSince co) (methodsUntil co),
                namespacesUntil := resolveUntil (name nx) (namespacesUntil nco) (namespacesSince nco)
                   (namespacesSince co) (namespacesUntil co)\<rparr>)"
    using assms by (simp add: untilClass_def)
  show "fst (untilClass nx (c, co)) = c" by (simp add: e)
  show "until (snd (untilClass nx (c, co))) = until nco" by (simp add: e)
  show "since (snd (untilClass nx (c, co))) = since co" by (simp add: e)
  show "sinceOf k (snd (untilClass nx (c, co))) = sinceOf k co"
    by (cases k) (simp_all add: e)
  show "untilOf k (snd (untilClass nx (c, co))) =
           resolveUntil (name nx) (untilOf k nco) (sinceOf k nco) (sinceOf k co) (untilOf k co)"
    by (cases k) (simp_all add: e)
qed

lemma untilClass_fst: "fst (untilClass nx e) = fst e"
  by (cases e) (simp add: untilClass_def split: option.splits)

lemma untilClass_since: "sinceOf k (snd (untilClass nx e)) = sinceOf k (snd e)"
proof (cases e)
  case (Pair c co)
  show ?thesis
  proof (cases "map_of (classesLifespan nx) c")
    case None
    then show ?thesis using Pair by (simp add: untilClass_absent)
  next
    case (Some nco)
    then show ?thesis using Pair by (simp add: untilClass_present)
  qed
qed

lemma untilStep_name: "name (untilStep nx r) = name r"
  by (simp add: untilStep_def)

lemma untilStep_lookup:
  "map_of (classesLifespan (untilStep nx r)) c =
     map_option (\<lambda>co. snd (untilClass nx (c, co))) (map_of (classesLifespan r) c)"
  by (simp add: untilStep_def map_of_map_entry untilClass_fst)

lemma untilLoop_length: "length (untilLoop i rs) = length rs"
proof (induction i rs rule: untilLoop.induct)
  case (1 i rs)
  show ?case
  proof (cases "i + 1 < length rs")
    case True
    then show ?thesis using 1 by (subst untilLoop.simps) simp
  next
    case False
    then show ?thesis by (subst untilLoop.simps) simp
  qed
qed

lemma untilLoop_nth:
  "(\<forall>j \<le> i. untilLoop i rs ! j = rs ! j) \<and>
   (\<forall>j. i \<le> j \<and> j + 1 < length rs \<longrightarrow>
        untilLoop i rs ! (j + 1) = untilStep (untilLoop i rs ! j) (rs ! (j + 1)))"
proof (induction i rs rule: untilLoop.induct)
  case (1 i rs)
  show ?case
  proof (cases "i + 1 < length rs")
    case False
    then have e: "untilLoop i rs = rs" by (subst untilLoop.simps) simp
    show ?thesis unfolding e using False by auto
  next
    case True
    let ?rs' = "rs[i + 1 := untilStep (rs ! i) (rs ! (i + 1))]"
    let ?fin = "untilLoop (i + 1) ?rs'"
    have e: "untilLoop i rs = ?fin" using True by (subst untilLoop.simps) simp
    from "1.IH"[OF True] have
      low: "\<And>j. j \<le> i + 1 \<Longrightarrow> ?fin ! j = ?rs' ! j" and
      high: "\<And>j. i + 1 \<le> j \<Longrightarrow> j + 1 < length rs \<Longrightarrow>
                 ?fin ! (j + 1) = untilStep (?fin ! j) (?rs' ! (j + 1))"
      by simp_all
    have at_i: "?fin ! i = rs ! i" using low[of i] by simp
    have at_i1: "?fin ! (i + 1) = untilStep (rs ! i) (rs ! (i + 1))"
      using low[of "i + 1"] True by simp
    show ?thesis
      unfolding e
    proof (intro conjI allI impI)
      fix j assume "j \<le> i"
      then show "?fin ! j = rs ! j" using low[of j] by simp
    next
      fix j assume j: "i \<le> j \<and> j + 1 < length rs"
      show "?fin ! (j + 1) = untilStep (?fin ! j) (rs ! (j + 1))"
      proof (cases "j = i")
        case True
        then show ?thesis using at_i at_i1 by simp
      next
        case False
        then have "i + 1 \<le> j" using j by simp
        from high[OF this] j False show ?thesis by simp
      qed
    qed
  qed
qed

lemma untilPhase_length: "length (untilPhase rs) = length rs"
  by (simp add: untilPhase_def untilLoop_length)

lemma untilPhase_first: "untilPhase rs ! 0 = rs ! 0"
  using untilLoop_nth[of 0 rs] by (simp add: untilPhase_def)

lemma untilPhase_nth:
  "i + 1 < length rs \<Longrightarrow> untilPhase rs ! (i + 1) = untilStep (untilPhase rs ! i) (rs ! (i + 1))"
  using untilLoop_nth[of 0 rs] by (simp add: untilPhase_def)

lemma untilPhase_shape:
  "i < length rs \<Longrightarrow> untilPhase rs ! i = rs ! i \<or> (\<exists>nx. untilPhase rs ! i = untilStep nx (rs ! i))"
proof (cases i)
  case 0
  then show ?thesis by (simp add: untilPhase_first)
next
  case (Suc j)
  assume "i < length rs"
  then have "j + 1 < length rs" using Suc by simp
  from untilPhase_nth[OF this] show ?thesis using Suc by auto
qed

lemma untilStep_classKeys: "map fst (classesLifespan (untilStep nx r)) = map fst (classesLifespan r)"
  by (simp add: untilStep_def untilClass_fst)

lemma untilPhase_name: "i < length rs \<Longrightarrow> name (untilPhase rs ! i) = name (rs ! i)"
  using untilPhase_shape[of i rs] by (auto simp add: untilStep_name)

lemma untilPhase_classKeys:
  "i < length rs \<Longrightarrow> map fst (classesLifespan (untilPhase rs ! i)) = map fst (classesLifespan (rs ! i))"
  using untilPhase_shape[of i rs] by (auto simp add: untilStep_classKeys)



lemma untilPhase_adjacent:
  assumes "i + 1 < length rs"
    and "map_of (classesLifespan (rs ! (i + 1))) c = Some classOutline"
    and "map_of (classesLifespan (untilPhase rs ! (i + 1))) c = Some after"
  shows "case map_of (classesLifespan (untilPhase rs ! i)) c of
           None \<Rightarrow>
             until after = name (untilPhase rs ! i) \<and>
             (\<forall>k n. n \<in> set (map fst (untilOf k classOutline)) \<longrightarrow>
                    map_of (untilOf k after) n = Some (name (untilPhase rs ! i)))
         | Some nextReleaseOutline \<Rightarrow>
             until after = until nextReleaseOutline \<and>
             (\<forall>k n. n \<in> set (map fst (sinceOf k classOutline)) \<longrightarrow>
                    map_of (untilOf k after) n =
                      (case map_of (untilOf k nextReleaseOutline) n of
                         Some v \<Rightarrow> Some v
                       | None \<Rightarrow>
                           if n \<notin> set (map fst (sinceOf k nextReleaseOutline))
                           then Some (name (untilPhase rs ! i))
                           else map_of (untilOf k classOutline) n))"
proof -
  let ?nx = "untilPhase rs ! i"
  have step: "untilPhase rs ! (i + 1) = untilStep ?nx (rs ! (i + 1))"
    using assms(1) by (rule untilPhase_nth)
  have a: "after = snd (untilClass ?nx (c, classOutline))"
    using assms(3) unfolding step untilStep_lookup assms(2) by simp
  show ?thesis
  proof (cases "map_of (classesLifespan ?nx) c")
    case None
    show ?thesis
      unfolding a using None
      by (simp add: untilClass_absent[OF None] vanishUntil_map_of)
  next
    case (Some nco)
    show ?thesis
      unfolding a using Some
      by (simp add: untilClass_present[OF Some] resolveUntil_map_of)
  qed
qed

text \<open>
  C3. The until phase on any list of indexed releases: take a release \<open>R\<close> at index
  \<open>i + 1\<close>, its class outline as the phase found it (\<open>classOutline\<close>) and as the phase
  leaves it (\<open>after\<close>), and the newer neighbour at index \<open>i\<close> as the phase leaves it.
  If the neighbour lacks the class, \<open>until\<close> becomes the neighbour's name and so does
  every \<open>*Until\<close> entry that was recorded already. If the neighbour has the class,
  \<open>until\<close> is the neighbour's \<open>until\<close>, and for every name in \<open>*Since\<close> of \<open>R\<close> the
  \<open>*Until\<close> entry is the neighbour's entry when it has one, else the neighbour's name
  when the neighbour's \<open>*Since\<close> lacks the name, else what it was before.
\<close>

theorem until_propagation:
  assumes "i + 1 < length rs"
    and "map_of (classesLifespan (rs ! (i + 1))) c = Some classOutline"
    and "map_of (classesLifespan (untilPhase rs ! (i + 1))) c = Some after"
  shows "case map_of (classesLifespan (untilPhase rs ! i)) c of
           None \<Rightarrow>
             until after = name (untilPhase rs ! i) \<and>
             (\<forall>k n. n \<in> set (map fst (untilOf k classOutline)) \<longrightarrow>
                    map_of (untilOf k after) n = Some (name (untilPhase rs ! i)))
         | Some nextReleaseOutline \<Rightarrow>
             until after = until nextReleaseOutline \<and>
             (\<forall>k n. n \<in> set (map fst (sinceOf k classOutline)) \<longrightarrow>
                    map_of (untilOf k after) n =
                      (case map_of (untilOf k nextReleaseOutline) n of
                         Some v \<Rightarrow> Some v
                       | None \<Rightarrow>
                           if n \<notin> set (map fst (sinceOf k nextReleaseOutline))
                           then Some (name (untilPhase rs ! i))
                           else map_of (untilOf k classOutline) n))"
  using assms by (rule untilPhase_adjacent)

text \<open>
  Both branches on two releases: class \<open>Old\<close> is gone in the newer release and its
  recorded entry for \<open>tick\<close> is rewritten; class \<open>Page\<close> stays, its method \<open>close\<close> does not.
\<close>

theorem until_propagation_witness:
  "map_of (classesLifespan (untilInput ! (0 + 1))) ''Old'' = Some (oldOutline [] ''v1.5.0'')
   \<and> map_of (classesLifespan (untilPhase untilInput ! (0 + 1))) ''Old'' = Some (oldOutline ''v2.0.0'' ''v2.0.0'')
   \<and> map_of (classesLifespan (untilPhase untilInput ! 0)) ''Old'' = None
   \<and> until (oldOutline ''v2.0.0'' ''v2.0.0'') = name (untilPhase untilInput ! 0)
   \<and> map_of (untilOf Event (oldOutline ''v2.0.0'' ''v2.0.0'')) ''tick'' = Some (name (untilPhase untilInput ! 0))
   \<and> map_of (classesLifespan (untilInput ! (0 + 1))) ''Page''
        = Some (pageOutline ''v1.0.0'' [(''close'', ''v1.0.0'')] [])
   \<and> map_of (classesLifespan (untilPhase untilInput ! (0 + 1))) ''Page''
        = Some (pageOutline ''v1.0.0'' [(''close'', ''v1.0.0'')] [(''close'', ''v2.0.0'')])
   \<and> map_of (classesLifespan (untilPhase untilInput ! 0)) ''Page'' = Some (pageOutline ''v1.0.0'' [] [])
   \<and> map_of (untilOf Method (pageOutline ''v1.0.0'' [(''close'', ''v1.0.0'')] [(''close'', ''v2.0.0'')])) ''close''
        = Some (name (untilPhase untilInput ! 0))"
proof -
  let ?old = "oldOutline [] ''v1.5.0''" and ?old' = "oldOutline ''v2.0.0'' ''v2.0.0''"
  let ?page = "pageOutline ''v1.0.0'' [(''close'', ''v1.0.0'')] []"
  let ?page' = "pageOutline ''v1.0.0'' [(''close'', ''v1.0.0'')] [(''close'', ''v2.0.0'')]"
  let ?next = "pageOutline ''v1.0.0'' [] []"
  have l: "0 + 1 < length untilInput" by (simp add: untilInput_def)
  have o: "map_of (classesLifespan (untilInput ! (0 + 1))) ''Old'' = Some ?old" by code_simp
  have o': "map_of (classesLifespan (untilPhase untilInput ! (0 + 1))) ''Old'' = Some ?old'" by code_simp
  have on: "map_of (classesLifespan (untilPhase untilInput ! 0)) ''Old'' = None" by code_simp
  have p: "map_of (classesLifespan (untilInput ! (0 + 1))) ''Page'' = Some ?page" by code_simp
  have p': "map_of (classesLifespan (untilPhase untilInput ! (0 + 1))) ''Page'' = Some ?page'" by code_simp
  have pn: "map_of (classesLifespan (untilPhase untilInput ! 0)) ''Page'' = Some ?next" by code_simp
  have k: "''tick'' \<in> set (map fst (untilOf Event ?old))"
    "''close'' \<in> set (map fst (sinceOf Method ?page))"
    "map_of (untilOf Method ?next) ''close'' = None"
    "''close'' \<notin> set (map fst (sinceOf Method ?next))"
    by (simp_all add: oldOutline_def pageOutline_def)
  from until_propagation[OF l o o', unfolded on]
  have u: "until ?old' = name (untilPhase untilInput ! 0)"
    and q: "\<forall>k n. n \<in> set (map fst (untilOf k ?old)) \<longrightarrow>
                 map_of (untilOf k ?old') n = Some (name (untilPhase untilInput ! 0))"
    by simp_all
  from q[rule_format, OF k(1)]
  have t: "map_of (untilOf Event ?old') ''tick'' = Some (name (untilPhase untilInput ! 0))" .
  from until_propagation[OF l p p', unfolded pn]
  have r: "\<forall>k n. n \<in> set (map fst (sinceOf k ?page)) \<longrightarrow>
             map_of (untilOf k ?page') n =
               (case map_of (untilOf k ?next) n of
                  Some v \<Rightarrow> Some v
                | None \<Rightarrow> if n \<notin> set (map fst (sinceOf k ?next))
                          then Some (name (untilPhase untilInput ! 0))
                          else map_of (untilOf k ?page) n)"
    by simp
  from r[rule_format, OF k(2)] k(3,4)
  have c: "map_of (untilOf Method ?page') ''close'' = Some (name (untilPhase untilInput ! 0))"
    by simp
  from o o' on u t p p' pn c show ?thesis by blast
qed

section \<open>The constructed index\<close>

lemma initializeAPILifespan_parts:
  assumes "initializeAPILifespan releases = Inr index"
  shows "\<exists>built. buildPhase releases = Inr built
    \<and> index = untilPhase (sincePhase built)
    \<and> length index = length built
    \<and> (\<forall>i. i < length built \<longrightarrow> noUntil (sincePhase built ! i))
    \<and> (\<forall>i. i < length built \<longrightarrow> name (index ! i) = name (releases ! i))"
proof -
  from assms obtain built where b: "buildPhase releases = Inr built"
    and i: "index = untilPhase (sincePhase built)"
    by (auto simp add: initializeAPILifespan_def split: sum.splits)
  have all: "list_all builtRelease built" and names: "map name built = map name releases"
    using buildPhase_built[OF b] by simp_all
  have len: "length index = length built"
    by (simp add: i untilPhase_length sincePhase_length)
  have nu: "noUntil (sincePhase built ! j)" if "j < length built" for j
    using sincePhase_inv(3)[OF that] builtRelease_inv all that by (simp add: list_all_length)
  have nm: "name (index ! j) = name (releases ! j)" if "j < length built" for j
  proof -
    have "name (index ! j) = name (built ! j)"
      using that by (simp add: i untilPhase_name sincePhase_length sincePhase_inv(1))
    also have "\<dots> = map name built ! j" using that by simp
    also have "\<dots> = name (releases ! j)"
      unfolding names using that names by (metis length_map nth_map)
    finally show ?thesis .
  qed
  from b i len nu nm show ?thesis by blast
qed

lemma noUntil_lookup:
  "noUntil r \<Longrightarrow> map_of (classesLifespan r) c = Some co \<Longrightarrow> until co = [] \<and> untilOf k co = []"
proof -
  assume n: "noUntil r" and l: "map_of (classesLifespan r) c = Some co"
  have "(c, co) \<in> set (classesLifespan r)" using l by (rule map_of_SomeD)
  then show ?thesis using n by (force simp add: noUntil_def)
qed

text \<open>
  C9. In the constructed index, a class of the release at index \<open>i + 1\<close> that the newer
  neighbour at index \<open>i\<close> lacks has the neighbour's name as \<open>until\<close> and three empty
  \<open>*Until\<close> maps: the until step found the outline (\<open>before\<close>, as the since phase left
  it) with empty \<open>*Until\<close> maps, so its three loops over the recorded keys had nothing
  to rewrite.
\<close>

theorem vanished_class_until_maps_empty:
  assumes "initializeAPILifespan releases = Inr index" and "i + 1 < length index"
    and "map_of (classesLifespan (index ! (i + 1))) c = Some classOutline"
    and "map_of (classesLifespan (index ! i)) c = None"
  shows "until classOutline = name (index ! i) \<and>
         eventsUntil classOutline = [] \<and> methodsUntil classOutline = [] \<and>
         namespacesUntil classOutline = [] \<and>
         (\<exists>built before.
             buildPhase releases = Inr built \<and>
             map_of (classesLifespan (sincePhase built ! (i + 1))) c = Some before \<and>
             eventsUntil before = [] \<and> methodsUntil before = [] \<and> namespacesUntil before = [] \<and>
             classOutline = snd (untilClass (index ! i) (c, before)))"
proof -
  from assms(1) obtain built where b: "buildPhase releases = Inr built"
    and ix: "index = untilPhase (sincePhase built)"
    and len: "length index = length built"
    and nu: "\<And>i. i < length built \<Longrightarrow> noUntil (sincePhase built ! i)"
    and nm: "\<And>i. i < length built \<Longrightarrow> name (index ! i) = name (releases ! i)"
    using initializeAPILifespan_parts by blast
  let ?ss = "sincePhase built"
  have i1: "i + 1 < length ?ss" using assms(2) len by (simp add: sincePhase_length)
  have step: "index ! (i + 1) = untilStep (index ! i) (?ss ! (i + 1))"
    unfolding ix using i1 by (rule untilPhase_nth)
  from assms(3) obtain before where bf: "map_of (classesLifespan (?ss ! (i + 1))) c = Some before"
    and co: "classOutline = snd (untilClass (index ! i) (c, before))"
    unfolding step untilStep_lookup by auto
  have "i + 1 < length built" using assms(2) len by simp
  from noUntil_lookup[OF nu[OF this] bf]
  have e: "untilOf k before = []" for k by simp
  have u: "until classOutline = name (index ! i)"
    and m: "\<And>k. untilOf k classOutline = []"
    unfolding co by (simp_all add: untilClass_absent[OF assms(4)] e vanishUntil_Nil)
  show ?thesis
    using u m[of Event] m[of Method] m[of Namespace] e[of Event] e[of Method] e[of Namespace]
      b bf co
    by auto
qed

text \<open>
  Class \<open>Worker\<close> with its method \<open>url\<close> is gone in \<open>v2.0.0\<close>: the class has
  \<open>until = v2.0.0\<close>, the method has no \<open>methodsUntil\<close> entry.
\<close>

theorem vanished_class_until_maps_empty_witness:
  "initializeAPILifespan workerReleases = Inr workerIndex
   \<and> map_of (classesLifespan (workerIndex ! (0 + 1))) ''Worker'' = Some (workerOutline ''v2.0.0'')
   \<and> map_of (classesLifespan (workerIndex ! 0)) ''Worker'' = None
   \<and> until (workerOutline ''v2.0.0'') = name (workerIndex ! 0)
   \<and> methodsUntil (workerOutline ''v2.0.0'') = []"
proof -
  have i: "initializeAPILifespan workerReleases = Inr workerIndex" by code_simp
  have l: "0 + 1 < length workerIndex" by (simp add: workerIndex_def)
  have w: "map_of (classesLifespan (workerIndex ! (0 + 1))) ''Worker'' = Some (workerOutline ''v2.0.0'')"
    by code_simp
  have n: "map_of (classesLifespan (workerIndex ! 0)) ''Worker'' = None" by code_simp
  from vanished_class_until_maps_empty[OF i l w n] i w n show ?thesis by blast
qed

lemma resolved_until_aux:
  assumes nu: "\<And>i. i < length ss \<Longrightarrow> noUntil (ss ! i)"
  shows "k < length ss \<Longrightarrow>
     map_of (classesLifespan (untilPhase ss ! k)) c = Some co \<Longrightarrow>
     map_of (untilOf kind co) n = Some V \<Longrightarrow>
     \<exists>j<k. name (untilPhase ss ! j) = V \<and>
        (\<exists>absent. map_of (classesLifespan (untilPhase ss ! j)) c = Some absent \<and>
                  n \<notin> set (map fst (sinceOf kind absent))) \<and>
        (\<forall>m. j < m \<and> m \<le> k \<longrightarrow>
           (\<exists>present. map_of (classesLifespan (untilPhase ss ! m)) c = Some present \<and>
                     n \<in> set (map fst (sinceOf kind present))))"
proof (induction k arbitrary: co V)
  case 0
  have "map_of (classesLifespan (ss ! 0)) c = Some co"
    using "0.prems"(2) by (simp add: untilPhase_first)
  from noUntil_lookup[OF nu[OF "0.prems"(1)] this] have "untilOf kind co = []" by simp
  then show ?case using "0.prems"(3) by simp
next
  case (Suc k)
  let ?fin = "untilPhase ss"
  have k1: "k + 1 < length ss" and k: "k < length ss" using Suc.prems(1) by simp_all
  have step: "?fin ! Suc k = untilStep (?fin ! k) (ss ! Suc k)"
    using untilPhase_nth[OF k1] by simp
  from Suc.prems(2) obtain co0 where co0: "map_of (classesLifespan (ss ! Suc k)) c = Some co0"
    and co: "co = snd (untilClass (?fin ! k) (c, co0))"
    unfolding step untilStep_lookup by auto
  have e: "untilOf kind co0 = []"
    using noUntil_lookup[OF nu[OF Suc.prems(1)] co0] by simp
  show ?case
  proof (cases "map_of (classesLifespan (?fin ! k)) c")
    case None
    have "untilOf kind co = []"
      unfolding co by (simp add: untilClass_absent[OF None] e vanishUntil_Nil)
    then show ?thesis using Suc.prems(3) by simp
  next
    case (Some nco)
    have s: "sinceOf kind co = sinceOf kind co0"
      and u: "untilOf kind co = resolveUntil (name (?fin ! k)) (untilOf kind nco) (sinceOf kind nco)
                 (sinceOf kind co0) []"
      unfolding co by (simp_all add: untilClass_present[OF Some] e)
    have r: "n \<in> set (map fst (sinceOf kind co0)) \<and>
          (case map_of (untilOf kind nco) n of
             Some v \<Rightarrow> v = V
           | None \<Rightarrow> n \<notin> set (map fst (sinceOf kind nco)) \<and> V = name (?fin ! k))"
      using Suc.prems(3) unfolding u resolveUntil_map_of
      by (auto split: if_splits option.splits)
    then have here: "n \<in> set (map fst (sinceOf kind co))"
      unfolding s by simp
    have pres: "\<exists>present. map_of (classesLifespan (?fin ! Suc k)) c = Some present \<and>
                     n \<in> set (map fst (sinceOf kind present))"
      using Suc.prems(2) here by blast
    show ?thesis
    proof (cases "map_of (untilOf kind nco) n")
      case inner: (Some v)
      then have "v = V" using r by simp
      with inner have "map_of (untilOf kind nco) n = Some V" by simp
      from Suc.IH[OF k Some this] obtain j where j: "j < k" "name (?fin ! j) = V"
        "\<exists>absent. map_of (classesLifespan (?fin ! j)) c = Some absent \<and>
                  n \<notin> set (map fst (sinceOf kind absent))"
        "\<forall>m. j < m \<and> m \<le> k \<longrightarrow>
           (\<exists>present. map_of (classesLifespan (?fin ! m)) c = Some present \<and>
                     n \<in> set (map fst (sinceOf kind present)))"
        by blast
      have "\<forall>m. j < m \<and> m \<le> Suc k \<longrightarrow>
           (\<exists>present. map_of (classesLifespan (?fin ! m)) c = Some present \<and>
                     n \<in> set (map fst (sinceOf kind present)))"
        using j(4) pres by (auto simp add: le_Suc_eq)
      with j(1,2,3) show ?thesis
        by (intro exI[of _ j]) simp
    next
      case inner: None
      then have a: "n \<notin> set (map fst (sinceOf kind nco))" and v: "V = name (?fin ! k)"
        using r by simp_all
      have "\<forall>m. k < m \<and> m \<le> Suc k \<longrightarrow>
           (\<exists>present. map_of (classesLifespan (?fin ! m)) c = Some present \<and>
                     n \<in> set (map fst (sinceOf kind present)))"
        using pres by (auto simp add: le_Suc_eq)
      with a v Some show ?thesis
        by (intro exI[of _ k]) simp
    qed
  qed
qed

text \<open>
  C7. In the constructed index, when a \<open>*Until\<close> entry of a class of the release at
  index \<open>k\<close> is resolved to \<open>V\<close>, then \<open>V\<close> is the name of a newer release (index
  \<open>j < k\<close>) that has the class without the symbol, and every release from the one
  next to it (index \<open>j + 1\<close>) up to index \<open>k\<close> has the class with the symbol.
\<close>

theorem resolved_until_marks_absence:
  assumes "initializeAPILifespan releases = Inr index" and "k < length index"
    and "map_of (classesLifespan (index ! k)) c = Some classOutline"
    and "map_of (untilOf kind classOutline) n = Some V"
  shows "\<exists>j<k. name (index ! j) = V \<and> name (releases ! j) = V \<and>
        (\<exists>absent. map_of (classesLifespan (index ! j)) c = Some absent \<and>
                  n \<notin> set (map fst (sinceOf kind absent))) \<and>
        (\<forall>m. j < m \<and> m \<le> k \<longrightarrow>
           (\<exists>present. map_of (classesLifespan (index ! m)) c = Some present \<and>
                     n \<in> set (map fst (sinceOf kind present))))"
proof -
  from assms(1) obtain built where b: "buildPhase releases = Inr built"
    and ix: "index = untilPhase (sincePhase built)"
    and len: "length index = length built"
    and nu: "\<And>i. i < length built \<Longrightarrow> noUntil (sincePhase built ! i)"
    and nm: "\<And>i. i < length built \<Longrightarrow> name (index ! i) = name (releases ! i)"
    using initializeAPILifespan_parts by blast
  let ?ss = "sincePhase built"
  have nu': "\<And>i. i < length ?ss \<Longrightarrow> noUntil (?ss ! i)"
    using nu by (simp add: sincePhase_length)
  have k: "k < length ?ss" using assms(2) len by (simp add: sincePhase_length)
  from resolved_until_aux[of ?ss k c classOutline kind n V, OF nu' k] assms(3,4)
  obtain j where j: "j < k" "name (index ! j) = V"
        "\<exists>absent. map_of (classesLifespan (index ! j)) c = Some absent \<and>
                  n \<notin> set (map fst (sinceOf kind absent))"
        "\<forall>m. j < m \<and> m \<le> k \<longrightarrow>
           (\<exists>present. map_of (classesLifespan (index ! m)) c = Some present \<and>
                     n \<in> set (map fst (sinceOf kind present)))"
    unfolding ix by blast
  have "j < length built" using j(1) assms(2) len by simp
  from nm[OF this] j(2) have "name (releases ! j) = V" by simp
  with j show ?thesis by blast
qed

text \<open>
  The scenario of the specification: \<open>close\<close> of the oldest release is resolved to
  \<open>v1.0.0\<close>, the release at index 1.
\<close>

theorem resolved_until_marks_absence_witness:
  "initializeAPILifespan pageReleases = Inr pageIndex
   \<and> map_of (classesLifespan (pageIndex ! 2)) ''Page''
        = Some (pageOutline ''v0.9.0'' [(''close'', ''v0.9.0'')] [(''close'', ''v1.0.0'')])
   \<and> map_of (untilOf Method (pageOutline ''v0.9.0'' [(''close'', ''v0.9.0'')] [(''close'', ''v1.0.0'')])) ''close''
        = Some ''v1.0.0''
   \<and> (\<exists>j<2. name (pageReleases ! j) = ''v1.0.0'')"
proof -
  let ?old = "pageOutline ''v0.9.0'' [(''close'', ''v0.9.0'')] [(''close'', ''v1.0.0'')]"
  have i: "initializeAPILifespan pageReleases = Inr pageIndex" by code_simp
  have l: "2 < length pageIndex" by (simp add: pageIndex_def)
  have p: "map_of (classesLifespan (pageIndex ! 2)) ''Page'' = Some ?old" by code_simp
  have u: "map_of (untilOf Method ?old) ''close'' = Some ''v1.0.0''"
    by (simp add: pageOutline_def)
  from resolved_until_marks_absence[OF i l p u]
  have "\<exists>j<2. name (pageReleases ! j) = ''v1.0.0''" by blast
  with i p u show ?thesis by blast
qed

lemma until_keys_in_since:
  assumes "initializeAPILifespan releases = Inr index" and "k < length index"
    and "map_of (classesLifespan (index ! k)) c = Some co"
    and "n \<notin> set (map fst (sinceOf kind co))"
  shows "map_of (untilOf kind co) n = None"
proof (rule ccontr)
  assume "map_of (untilOf kind co) n \<noteq> None"
  then obtain V where V: "map_of (untilOf kind co) n = Some V" by auto
  from assms(1) obtain built where b: "buildPhase releases = Inr built"
    and ix: "index = untilPhase (sincePhase built)"
    and len: "length index = length built"
    and nu: "\<And>i. i < length built \<Longrightarrow> noUntil (sincePhase built ! i)"
    and nm: "\<And>i. i < length built \<Longrightarrow> name (index ! i) = name (releases ! i)"
    using initializeAPILifespan_parts by blast
  let ?ss = "sincePhase built"
  have nu': "\<And>i. i < length ?ss \<Longrightarrow> noUntil (?ss ! i)"
    using nu by (simp add: sincePhase_length)
  have k: "k < length ?ss" using assms(2) len by (simp add: sincePhase_length)
  from resolved_until_aux[of ?ss k c co kind n V, OF nu' k] assms(3) V
  obtain j where "j < k" and
        "\<forall>m. j < m \<and> m \<le> k \<longrightarrow>
           (\<exists>present. map_of (classesLifespan (index ! m)) c = Some present \<and>
                     n \<in> set (map fst (sinceOf kind present)))"
    unfolding ix by blast
  then have "\<exists>present. map_of (classesLifespan (index ! k)) c = Some present \<and>
                     n \<in> set (map fst (sinceOf kind present))"
    by simp
  with assms(3,4) show False by simp
qed

lemma index_since_fields:
  assumes "i < length ss" and "map_of (classesLifespan (untilPhase ss ! i)) c = Some co"
  shows "\<exists>co0. map_of (classesLifespan (ss ! i)) c = Some co0 \<and> since co = since co0 \<and>
               (\<forall>k. sinceOf k co = sinceOf k co0)"
proof -
  from untilPhase_shape[OF assms(1)] consider "untilPhase ss ! i = ss ! i"
    | nx where "untilPhase ss ! i = untilStep nx (ss ! i)" by blast
  then show ?thesis
  proof cases
    case 1
    then show ?thesis using assms(2) by simp
  next
    case 2
    from assms(2) obtain co0 where co0: "map_of (classesLifespan (ss ! i)) c = Some co0"
      and co: "co = snd (untilClass nx (c, co0))"
      unfolding 2 untilStep_lookup by auto
    have "since co = since co0"
      unfolding co by (cases "map_of (classesLifespan nx) c")
        (simp_all add: untilClass_absent untilClass_present)
    moreover have "sinceOf k co = sinceOf k co0" for k
      unfolding co using untilClass_since[of k nx "(c, co0)"] by simp
    ultimately show ?thesis using co0 by blast
  qed
qed

text \<open>
  C1. Three releases named \<open>v1.1.0\<close>, \<open>v1.0.0\<close>, \<open>v0.9.0\<close>, stored newest first, whose
  scans succeed and give a class \<open>Page\<close> each, with the method \<open>close\<close> in the newest and
  the oldest release but not in the middle one (the keys of \<open>methodsSince\<close> in the index
  are the method headings the scan found). Then the oldest entry of \<open>Page\<close> has
  \<open>methodsSince[close] = v0.9.0\<close> and \<open>methodsUntil[close] = v1.0.0\<close>, and the newest
  entry has \<open>methodsSince[close] = v1.1.0\<close> and no \<open>methodsUntil\<close> entry for \<open>close\<close>.
\<close>

theorem page_close_scenario:
  assumes "initializeAPILifespan [newest, middle, oldest] = Inr index"
    and "name newest = ''v1.1.0''" and "name middle = ''v1.0.0''" and "name oldest = ''v0.9.0''"
    and "map_of (classesLifespan (index ! 0)) ''Page'' = Some pageNewest"
    and "map_of (classesLifespan (index ! 1)) ''Page'' = Some pageMiddle"
    and "map_of (classesLifespan (index ! 2)) ''Page'' = Some pageOldest"
    and "''close'' \<in> set (map fst (methodsSince pageNewest))"
    and "''close'' \<notin> set (map fst (methodsSince pageMiddle))"
    and "''close'' \<in> set (map fst (methodsSince pageOldest))"
  shows "map_of (methodsSince pageOldest) ''close'' = Some ''v0.9.0''
       \<and> map_of (methodsUntil pageOldest) ''close'' = Some ''v1.0.0''
       \<and> map_of (methodsSince pageNewest) ''close'' = Some ''v1.1.0''
       \<and> map_of (methodsUntil pageNewest) ''close'' = None"
proof -
  let ?rs = "[newest, middle, oldest]"
  from assms(1) obtain built where b: "buildPhase ?rs = Inr built"
    and ix: "index = untilPhase (sincePhase built)"
    and len: "length index = length built"
    and nu: "\<And>i. i < length built \<Longrightarrow> noUntil (sincePhase built ! i)"
    and nm: "\<And>i. i < length built \<Longrightarrow> name (index ! i) = name (?rs ! i)"
    using initializeAPILifespan_parts by blast
  let ?ss = "sincePhase built"
  have all: "list_all builtRelease built" and names: "map name built = map name ?rs"
    using buildPhase_built[OF b] by simp_all
  have "length (map name built) = length (map name ?rs)" using names by simp
  then have l3: "length built = 3" by simp
  have lss: "length ?ss = 3" using l3 by (simp add: sincePhase_length)
  have "map name built ! 0 = ''v1.1.0''" "map name built ! 2 = ''v0.9.0''"
    unfolding names using assms(2,4) by simp_all
  then have nb: "name (built ! 0) = ''v1.1.0''" "name (built ! 2) = ''v0.9.0''"
    using l3 by simp_all
  have n1: "name (index ! 1) = ''v1.0.0''"
    using nm[of 1] l3 assms(3) by simp
  \<comment> \<open>the since fields of the index are those of the since phase\<close>
  from index_since_fields[of 0 ?ss "''Page''" pageNewest] assms(5) lss ix
  obtain s0 where s0: "map_of (classesLifespan (?ss ! 0)) ''Page'' = Some s0"
    "\<And>k. sinceOf k pageNewest = sinceOf k s0" by auto
  from index_since_fields[of 1 ?ss "''Page''" pageMiddle] assms(6) lss ix
  obtain s1 where s1: "map_of (classesLifespan (?ss ! 1)) ''Page'' = Some s1"
    "\<And>k. sinceOf k pageMiddle = sinceOf k s1" by auto
  from index_since_fields[of 2 ?ss "''Page''" pageOldest] assms(7) lss ix
  obtain s2 where s2: "map_of (classesLifespan (?ss ! 2)) ''Page'' = Some s2"
    "\<And>k. sinceOf k pageOldest = sinceOf k s2" by auto
  \<comment> \<open>oldest: the since phase leaves the last release as built\<close>
  have "built \<noteq> []" using l3 by auto
  from sincePhase_last[OF this] have "?ss ! 2 = built ! 2"
    by (simp add: l3)
  then have b2: "map_of (classesLifespan (built ! 2)) ''Page'' = Some s2" using s2(1) by simp
  have br2: "builtRelease (built ! 2)" using all l3 by (simp add: list_all_length)
  have in2: "''close'' \<in> set (map fst (sinceOf Method s2))"
    using assms(10) s2(2)[of Method] by simp
  have A: "map_of (methodsSince pageOldest) ''close'' = Some ''v0.9.0''"
    using builtRelease_since(2)[OF br2 b2 in2] s2(2)[of Method] nb(2) by simp
  \<comment> \<open>newest: close is not in the middle release\<close>
  have i01: "0 + 1 < length built" using l3 by simp
  have in0: "''close'' \<in> set (map fst (sinceOf Method s0))"
    using assms(8) s0(2)[of Method] by simp
  have out1: "''close'' \<notin> set (map fst (sinceOf Method s1))"
    using assms(9) s1(2)[of Method] by simp
  from sincePhase_adjacent[OF b i01 s0(1)] s1(1)
  have "\<forall>k n. n \<in> set (map fst (sinceOf k s0)) \<longrightarrow>
          map_of (sinceOf k s0) n =
            (if n \<in> set (map fst (sinceOf k s1)) then map_of (sinceOf k s1) n
             else Some (name (built ! 0)))"
    by simp
  from this[rule_format, OF in0] out1
  have "map_of (sinceOf Method s0) ''close'' = Some (name (built ! 0))" by simp
  then have C: "map_of (methodsSince pageNewest) ''close'' = Some ''v1.1.0''"
    using s0(2)[of Method] nb(1) by simp
  \<comment> \<open>newest: the until phase never writes to the first release\<close>
  have "index ! 0 = ?ss ! 0" unfolding ix by (rule untilPhase_first)
  then have "map_of (classesLifespan (?ss ! 0)) ''Page'' = Some pageNewest"
    using assms(5) by simp
  from noUntil_lookup[OF nu[of 0] this, where k = Method] l3
  have D: "map_of (methodsUntil pageNewest) ''close'' = None" by simp
  \<comment> \<open>oldest: close is gone in the middle release\<close>
  have i12: "1 + 1 < length ?ss" using lss by simp
  have m1: "map_of (untilOf Method pageMiddle) ''close'' = None"
    using until_keys_in_since[OF assms(1) _ assms(6), where kind = Method and n = "''close''"] assms(9) len l3
    by simp
  have p2: "map_of (classesLifespan (?ss ! (1 + 1))) ''Page'' = Some s2"
    using s2(1) by (simp add: numeral_2_eq_2)
  have a2: "map_of (classesLifespan (untilPhase ?ss ! (1 + 1))) ''Page'' = Some pageOldest"
    using assms(7) ix by (simp add: numeral_2_eq_2)
  from untilPhase_adjacent[OF i12 p2 a2] assms(6) ix
  have "\<forall>k n. n \<in> set (map fst (sinceOf k s2)) \<longrightarrow>
          map_of (untilOf k pageOldest) n =
            (case map_of (untilOf k pageMiddle) n of
               Some v \<Rightarrow> Some v
             | None \<Rightarrow> if n \<notin> set (map fst (sinceOf k pageMiddle))
                       then Some (name (untilPhase ?ss ! 1))
                       else map_of (untilOf k s2) n)"
    by simp
  from this[rule_format, OF in2] m1 assms(9)
  have "map_of (untilOf Method pageOldest) ''close'' = Some (name (untilPhase ?ss ! 1))"
    by simp
  then have B: "map_of (methodsUntil pageOldest) ''close'' = Some ''v1.0.0''"
    using n1 ix by simp
  from A B C D show ?thesis by blast
qed


text \<open>The instance with the texts of \<open>pageReleases\<close>.\<close>

theorem page_close_scenario_witness:
  "initializeAPILifespan pageReleases = Inr pageIndex
   \<and> map_of (classesLifespan (pageIndex ! 2)) ''Page''
        = Some (pageOutline ''v0.9.0'' [(''close'', ''v0.9.0'')] [(''close'', ''v1.0.0'')])
   \<and> map_of (classesLifespan (pageIndex ! 0)) ''Page''
        = Some (pageOutline ''v0.9.0'' [(''close'', ''v1.1.0'')] [])
   \<and> map_of (methodsSince (pageOutline ''v0.9.0'' [(''close'', ''v0.9.0'')] [(''close'', ''v1.0.0'')])) ''close''
        = Some ''v0.9.0''
   \<and> map_of (methodsUntil (pageOutline ''v0.9.0'' [(''close'', ''v0.9.0'')] [(''close'', ''v1.0.0'')])) ''close''
        = Some ''v1.0.0''
   \<and> map_of (methodsSince (pageOutline ''v0.9.0'' [(''close'', ''v1.1.0'')] [])) ''close'' = Some ''v1.1.0''
   \<and> map_of (methodsUntil (pageOutline ''v0.9.0'' [(''close'', ''v1.1.0'')] [])) ''close'' = None"
proof -
  let ?new = "pageOutline ''v0.9.0'' [(''close'', ''v1.1.0'')] []"
  let ?mid = "pageOutline ''v0.9.0'' [] []"
  let ?old = "pageOutline ''v0.9.0'' [(''close'', ''v0.9.0'')] [(''close'', ''v1.0.0'')]"
  let ?r3 = "\<lparr>name = ''v1.1.0'', apiText = ''### class: Page\<newline>#### page.close()''\<rparr>"
  let ?r2 = "\<lparr>name = ''v1.0.0'', apiText = ''### class: Page''\<rparr>"
  let ?r1 = "\<lparr>name = ''v0.9.0'', apiText = ''### class: Page\<newline>#### page.close()''\<rparr>"
  have i: "initializeAPILifespan pageReleases = Inr pageIndex" by code_simp
  then have i': "initializeAPILifespan [?r3, ?r2, ?r1] = Inr pageIndex"
    by (simp add: pageReleases_def)
  have n: "name ?r3 = ''v1.1.0''" "name ?r2 = ''v1.0.0''" "name ?r1 = ''v0.9.0''" by simp_all
  have p0: "map_of (classesLifespan (pageIndex ! 0)) ''Page'' = Some ?new" by code_simp
  have p1: "map_of (classesLifespan (pageIndex ! 1)) ''Page'' = Some ?mid" by code_simp
  have p2: "map_of (classesLifespan (pageIndex ! 2)) ''Page'' = Some ?old" by code_simp
  have k: "''close'' \<in> set (map fst (methodsSince ?new))"
    "''close'' \<notin> set (map fst (methodsSince ?mid))"
    "''close'' \<in> set (map fst (methodsSince ?old))"
    by (simp_all add: pageOutline_def)
  from page_close_scenario[OF i' n p0 p1 p2 k] i p0 p2 show ?thesis by blast
qed

section \<open>A symbol heading before any class heading\<close>

lemma scanTitle_closed_symbol:
  "isSymbolHeading t \<Longrightarrow> \<exists>p \<in> set nullReads. scanTitle rn t (None, []) = Inl (TypeError p, [])"
  by (auto simp add: isSymbolHeading_def scanTitle_def nullReads_def split: option.splits)

lemma scanTitle_closed_other:
  "\<not> isClassHeading t \<Longrightarrow> \<not> isSymbolHeading t \<Longrightarrow> scanTitle rn t (None, []) = Inr (None, [])"
  by (auto simp add: isSymbolHeading_def isClassHeading_def scanTitle_def split: option.splits)

lemma scanTitles_malformed:
  "\<forall>x \<in> set pre. \<not> isClassHeading x \<Longrightarrow> isSymbolHeading t \<Longrightarrow>
   \<exists>p \<in> set nullReads. scanTitles rn (pre @ t # post) (None, []) = Inl (TypeError p, [])"
proof (induction pre)
  case Nil
  from scanTitle_closed_symbol[OF Nil(2), of rn] show ?case by auto
next
  case (Cons x pre)
  show ?case
  proof (cases "isSymbolHeading x")
    case True
    from scanTitle_closed_symbol[OF True, of rn] show ?thesis by auto
  next
    case False
    have "\<not> isClassHeading x" using Cons.prems(1) by simp
    from scanTitle_closed_other[OF this False, of rn] Cons.IH Cons.prems
    show ?thesis by simp
  qed
qed

lemma buildRelease_malformed:
  assumes "titles (apiText r) = pre @ t # post"
    and "\<forall>x \<in> set pre. \<not> isClassHeading x" and "isSymbolHeading t"
  shows "\<exists>p \<in> set nullReads.
           buildRelease r = Inl (TypeError p, release.extend r \<lparr>classesLifespan = []\<rparr>)"
  using scanTitles_malformed[OF assms(2,3), of "name r" post] assms(1)
  by (auto simp add: buildRelease_def)

lemma scanTitle_error: "scanTitle rn t st = Inl (e, m) \<Longrightarrow> \<exists>p \<in> set nullReads. e = TypeError p"
  by (cases st) (auto simp add: scanTitle_def nullReads_def split: option.splits)

lemma scanTitles_error: "scanTitles rn ts st = Inl (e, m) \<Longrightarrow> \<exists>p \<in> set nullReads. e = TypeError p"
proof (induction ts arbitrary: st)
  case Nil
  then show ?case by simp
next
  case (Cons t ts)
  show ?case
  proof (cases "scanTitle rn t st")
    case (Inl a)
    then have "scanTitle rn t st = Inl (e, m)" using Cons.prems by simp
    then show ?thesis by (rule scanTitle_error)
  next
    case (Inr st')
    then show ?thesis using Cons by simp
  qed
qed

lemma buildPhase_error: "buildPhase rs = Inl (e, s) \<Longrightarrow> \<exists>p \<in> set nullReads. e = TypeError p"
proof (induction rs arbitrary: s)
  case Nil
  then show ?case by simp
next
  case (Cons r rs)
  show ?case
  proof (cases "buildRelease r")
    case (Inl a)
    then obtain m where "scanTitles (name r) (titles (apiText r)) (None, []) = Inl (e, m)"
      using Cons.prems by (auto simp add: buildRelease_def split: sum.splits prod.splits)
    then show ?thesis by (rule scanTitles_error)
  next
    case (Inr b)
    then show ?thesis
      using Cons by (auto split: sum.splits prod.splits)
  qed
qed

lemma buildPhase_append_ok:
  "buildPhase before = Inr done \<Longrightarrow>
   buildPhase (before @ rs) =
     (case buildPhase rs of Inl (e, s) \<Rightarrow> Inl (e, done @ s) | Inr bs \<Rightarrow> Inr (done @ bs))"
proof (induction before arbitrary: "done")
  case Nil
  then show ?case by (auto split: sum.splits)
next
  case (Cons r before)
  then show ?case
    by (auto split: sum.splits prod.splits)
qed

lemma buildPhase_append_error:
  "buildPhase before = Inl (e, s) \<Longrightarrow> buildPhase (before @ rs) = Inl (e, s)"
proof (induction before arbitrary: s)
  case Nil
  then show ?case by simp
next
  case (Cons r before)
  then show ?case
    by (auto split: sum.splits prod.splits)
qed

text \<open>
  C6, as amended. When the titles of a release have an event, method or namespace
  heading with no class heading before it, \<open>_initializeAPILifespan\<close> fails for every
  list of releases that contains the release: it raises the \<open>TypeError\<close> of reading
  \<open>eventsSince\<close>, \<open>methodsSince\<close> or \<open>namespacesSince\<close> of \<open>null\<close>, and returns no index.
  When the releases in front of it were scanned without error, the exception leaves
  them with their \<open>classesLifespan\<close>, the failing release with an empty one, and the
  releases behind it untouched.
\<close>

theorem malformed_release_fails:
  assumes "titles (apiText r) = pre @ t # post"
    and "\<forall>x \<in> set pre. \<not> isClassHeading x" and "isSymbolHeading t"
  shows "\<exists>property failed.
           initializeAPILifespan (before @ r # later) = Inl (TypeError property, failed) \<and>
           property \<in> set nullReads \<and>
           (\<forall>built. buildPhase before = Inr built \<longrightarrow>
                    failed = built @ [release.extend r \<lparr>classesLifespan = []\<rparr>])"
proof (cases "buildPhase before")
  case (Inl a)
  obtain e s where a: "a = (e, s)" by (cases a)
  from buildPhase_error[of before e s] Inl a obtain p where p: "p \<in> set nullReads" "e = TypeError p"
    by auto
  have "buildPhase (before @ r # later) = Inl (TypeError p, s)"
    using buildPhase_append_error[of before e s "r # later"] Inl a p by simp
  then have "initializeAPILifespan (before @ r # later) = Inl (TypeError p, s)"
    by (simp add: initializeAPILifespan_def)
  with p(1) Inl show ?thesis by auto
next
  case (Inr built)
  from buildRelease_malformed[OF assms] obtain p where p: "p \<in> set nullReads"
    "buildRelease r = Inl (TypeError p, release.extend r \<lparr>classesLifespan = []\<rparr>)"
    by auto
  have "buildPhase (r # later) = Inl (TypeError p, [release.extend r \<lparr>classesLifespan = []\<rparr>])"
    using p(2) by simp
  then have "buildPhase (before @ r # later) =
      Inl (TypeError p, built @ [release.extend r \<lparr>classesLifespan = []\<rparr>])"
    using buildPhase_append_ok[OF Inr, of "r # later"] by simp
  then have "initializeAPILifespan (before @ r # later) =
      Inl (TypeError p, built @ [release.extend r \<lparr>classesLifespan = []\<rparr>])"
    by (simp add: initializeAPILifespan_def)
  with p(1) Inr show ?thesis by auto
qed

text \<open>
  The instance \<open>brokenReleases\<close>: the second release has the method heading
  \<open>#### page.close()\<close> behind \<open>### Overview\<close> and in front of its class heading.
\<close>

theorem malformed_release_fails_witness:
  "titles (apiText (brokenReleases ! 1)) = [''### Overview''] @ ''#### page.close()'' # [''### class: Page'']
   \<and> \<not> isClassHeading ''### Overview''
   \<and> isSymbolHeading ''#### page.close()''
   \<and> buildPhase [brokenReleases ! 0] = Inr [brokenState ! 0]
   \<and> (\<exists>property. initializeAPILifespan brokenReleases = Inl (TypeError property, brokenState)
                   \<and> property \<in> set nullReads)"
proof -
  let ?r = "brokenReleases ! 1"
  have t: "titles (apiText ?r) = [''### Overview''] @ ''#### page.close()'' # [''### class: Page'']"
    by code_simp
  have c: "\<forall>x \<in> set [''### Overview'']. \<not> isClassHeading x" by code_simp
  have s: "isSymbolHeading ''#### page.close()''" by code_simp
  have b: "buildPhase [brokenReleases ! 0] = Inr [brokenState ! 0]" by code_simp
  have l: "[brokenReleases ! 0] @ ?r # [brokenReleases ! 2] = brokenReleases"
    by (simp add: brokenReleases_def)
  have f: "[brokenState ! 0] @ [release.extend ?r \<lparr>classesLifespan = []\<rparr>] = brokenState"
    by (simp add: brokenState_def brokenReleases_def release.defs)
  from malformed_release_fails[OF t c s, of "[brokenReleases ! 0]" "[brokenReleases ! 2]"]
  obtain property failed where
    "initializeAPILifespan brokenReleases = Inl (TypeError property, failed)"
    "property \<in> set nullReads"
    "\<forall>built. buildPhase [brokenReleases ! 0] = Inr built \<longrightarrow>
         failed = built @ [release.extend ?r \<lparr>classesLifespan = []\<rparr>]"
    unfolding l by blast
  with b f have "\<exists>property. initializeAPILifespan brokenReleases = Inl (TypeError property, brokenState)
                   \<and> property \<in> set nullReads"
    by auto
  with t c s b show ?thesis by simp
qed

text \<open>
  C6 as stated asks for an error that identifies the release and the heading. Two
  different releases with two different headings raise the same error value.
\<close>

theorem malformed_release_counterexample:
  "thrown (initializeAPILifespan [\<lparr>name = ''v1.0.0'', apiText = ''#### page.close()''\<rparr>])
     = Some (TypeError ''methodsSince'')
   \<and> thrown (initializeAPILifespan [\<lparr>name = ''v2.0.0'', apiText = ''#### frame.click(selector)''\<rparr>])
     = Some (TypeError ''methodsSince'')"
  by code_simp

section \<open>Facts about the search items\<close>

lemma titleTokens_text:
  "concat (map tokenText (titleTokens (createForClass c))) = itemText (createForClass c)"
  "concat (map tokenText (titleTokens (createForEvent e))) = itemText (createForEvent e)"
  "concat (map tokenText (titleTokens (createForNamespace n))) = itemText (createForNamespace n)"
  "concat (map tokenText (titleTokens (createForMethod m))) = itemText (createForMethod m)"
  by (simp_all add: createForClass_def createForEvent_def createForNamespace_def
        createForMethod_def Let_def)

lemma pushSearchItems_set:
  "set (pushSearchItems cs items) =
     set items \<union> (\<Union>c \<in> set cs. {createForClass c} \<union> createForEvent ` set (events c)
        \<union> createForNamespace ` set (namespaces c) \<union> createForMethod ` set (methods c))"
  by (induction cs arbitrary: items) auto

lemma searchItems_kinds:
  "item \<in> set (searchItems classes) \<Longrightarrow>
   (\<exists>c. item = createForClass c) \<or> (\<exists>e. item = createForEvent e) \<or>
   (\<exists>n. item = createForNamespace n) \<or> (\<exists>m. item = createForMethod m)"
  by (auto simp add: searchItems_def pushSearchItems_set)

lemma titleTokens_tags:
  assumes "item \<in> set (searchItems classes)" and "t \<in> set (titleTokens item)"
  shows "tagName t = Some ''search-item-api-method-class'' \<or>
         tagName t = Some ''search-item-api-method-name''"
  using searchItems_kinds[OF assms(1)] assms(2)
  by (auto simp add: createForClass_def createForEvent_def createForNamespace_def
        createForMethod_def Let_def)

lemma titleElement_success:
  assumes "item \<in> set (searchItems classes)"
    and "validName ''search-highlight''"
    and "validName ''search-item-api-method-class''"
    and "validName ''search-item-api-method-name''"
  shows "\<exists>element. titleElement validName item matches = Inr element"
proof -
  have "\<forall>t \<in> set (titleTokens item). truthy (tagName t) \<longrightarrow> validName (the (tagName t))"
  proof (intro ballI impI)
    fix t assume "t \<in> set (titleTokens item)"
    from titleTokens_tags[OF assms(1) this] assms(3,4)
    show "validName (the (tagName t))" by auto
  qed
  from render_success[OF assms(2) this, of matches] show ?thesis
    by (simp add: titleElement_def)
qed

text \<open>
  C8. Every item the search index builds is made by one of the four constructors; the
  texts of its title tokens, in order, concatenate to its text, which is also the text
  content of its rendered title for any matches; the title is rendered whenever the
  document accepts the three element names in use. The text is the class name for a
  class, \<open>loweredName.name(args)\<close> for a method, \<open>loweredName.on('name')\<close> for an event
  and \<open>loweredName.name\<close> for a namespace, with \<open>loweredName\<close> of the owning class.
\<close>

theorem search_item_text:
  "(\<forall>item \<in> set (searchItems classes).
       concat (map tokenText (titleTokens item)) = itemText item \<and>
       (\<forall>element. titleElement validName item matches = Inr element \<longrightarrow>
                  textContent element = itemText item) \<and>
       (validName ''search-highlight'' \<and> validName ''search-item-api-method-class'' \<and>
        validName ''search-item-api-method-name'' \<longrightarrow>
        (\<exists>element. titleElement validName item matches = Inr element)) \<and>
       ((\<exists>c. item = createForClass c) \<or> (\<exists>e. item = createForEvent e) \<or>
        (\<exists>n. item = createForNamespace n) \<or> (\<exists>m. item = createForMethod m)))
   \<and> itemText (createForClass cls) = entryName cls
   \<and> itemText (createForMethod apiMethod) =
        loweredName (apiClass apiMethod) @ ''.'' @ entryName apiMethod @ ''('' @ args apiMethod @ '')''
   \<and> itemText (createForEvent apiEvent) =
        loweredName (apiClass apiEvent) @ ''.on('' @ [CHR 0x27] @ entryName apiEvent @ [CHR 0x27] @ '')''
   \<and> itemText (createForNamespace apiNamespace) =
        loweredName (apiClass apiNamespace) @ ''.'' @ entryName apiNamespace"
proof -
  have tok: "concat (map tokenText (titleTokens item)) = itemText item"
    if "item \<in> set (searchItems classes)" for item
    using searchItems_kinds[OF that] titleTokens_text by auto
  have tcont: "textContent element = itemText item"
    if "item \<in> set (searchItems classes)" and "titleElement validName item matches = Inr element"
    for item element
  proof -
    have "element = renderedFragment matches (titleTokens item)"
      using that(2) unfolding titleElement_def by (rule render_Inr)
    then show ?thesis using tok[OF that(1)] by (simp add: renderTokens_text)
  qed
  have ok: "\<exists>element. titleElement validName item matches = Inr element"
    if "item \<in> set (searchItems classes)" and "validName ''search-highlight'' \<and>
        validName ''search-item-api-method-class'' \<and> validName ''search-item-api-method-name''"
    for item
    using titleElement_success[OF that(1)] that(2) by blast
  have "\<forall>item \<in> set (searchItems classes).
       concat (map tokenText (titleTokens item)) = itemText item \<and>
       (\<forall>element. titleElement validName item matches = Inr element \<longrightarrow>
                  textContent element = itemText item) \<and>
       (validName ''search-highlight'' \<and> validName ''search-item-api-method-class'' \<and>
        validName ''search-item-api-method-name'' \<longrightarrow>
        (\<exists>element. titleElement validName item matches = Inr element)) \<and>
       ((\<exists>c. item = createForClass c) \<or> (\<exists>e. item = createForEvent e) \<or>
        (\<exists>n. item = createForNamespace n) \<or> (\<exists>m. item = createForMethod m))"
    using tok tcont ok searchItems_kinds[of _ classes] by blast
  then show ?thesis
    by (simp add: createForClass_def createForEvent_def createForNamespace_def
          createForMethod_def Let_def)
qed

text \<open>The method \<open>click\<close> of the example class.\<close>

theorem search_item_text_witness:
  "createForMethod (hd (methods pageMembers)) \<in> set (searchItems [pageMembers])
   \<and> itemText (createForMethod (hd (methods pageMembers))) = ''page.click(selector)''
   \<and> map tokenText (titleTokens (createForMethod (hd (methods pageMembers)))) = [''page.'', ''click(selector)'']
   \<and> titleElement xmlName (createForMethod (hd (methods pageMembers))) [0, 1, 2, 3, 4, 5] =
       Inr (DocumentFragment
         [Element ''search-item-api-method-class'' [Element ''search-highlight'' [Text ''page.'']],
          Element ''search-item-api-method-name'' [Element ''search-highlight'' [Text ''c''], Text ''lick(selector)'']])
   \<and> textContent (DocumentFragment
         [Element ''search-item-api-method-class'' [Element ''search-highlight'' [Text ''page.'']],
          Element ''search-item-api-method-name'' [Element ''search-highlight'' [Text ''c''], Text ''lick(selector)'']])
       = ''page.click(selector)''"
proof -
  let ?item = "createForMethod (hd (methods pageMembers))"
  let ?el = "DocumentFragment
         [Element ''search-item-api-method-class'' [Element ''search-highlight'' [Text ''page.'']],
          Element ''search-item-api-method-name'' [Element ''search-highlight'' [Text ''c''], Text ''lick(selector)'']]"
  have m: "?item \<in> set (searchItems [pageMembers])" by code_simp
  have t: "itemText ?item = ''page.click(selector)''" by code_simp
  have k: "map tokenText (titleTokens ?item) = [''page.'', ''click(selector)'']" by code_simp
  have e: "titleElement xmlName ?item [0, 1, 2, 3, 4, 5] = Inr ?el" by code_simp
  from search_item_text[of "[pageMembers]" xmlName "[0, 1, 2, 3, 4, 5]"] m e
  have "textContent ?el = itemText ?item" by blast
  with m t k e show ?thesis by simp
qed

end
